theory Spec2Isabelle
  imports Main "HOL-Library.Sublist"
begin

section \<open>JavaScript string primitives used by the runner\<close>

text \<open>
  Strings are lists of characters, a character being a code unit below 256. The
  definitions below give the behaviour of the
  \<^verbatim>\<open>String.prototype\<close> methods that the runner calls, for the arguments it calls them
  with (separators and search strings are never empty there).
\<close>

definition backslash :: char where
  "backslash = CHR 0x5C"

definition quote :: char where
  "quote = CHR 0x27"

text \<open>\<^verbatim>\<open>xs.join(sep)\<close>\<close>

fun js_join :: "string \<Rightarrow> string list \<Rightarrow> string" where
  "js_join sep [] = []"
| "js_join sep [x] = x"
| "js_join sep (x # y # ys) = x @ sep @ js_join sep (y # ys)"

text \<open>\<^verbatim>\<open>s.split(sep)\<close> for a non-empty separator: the result always has at least one element.\<close>

fun js_split :: "string \<Rightarrow> string \<Rightarrow> string list" where
  "js_split sep [] = [[]]"
| "js_split sep (c # cs) =
     (if sep \<noteq> [] \<and> prefix sep (c # cs)
      then [] # js_split sep (drop (length sep) (c # cs))
      else (case js_split sep cs of
              [] \<Rightarrow> [[c]]
            | h # t \<Rightarrow> (c # h) # t))"

text \<open>\<^verbatim>\<open>s.indexOf(sub, from)\<close>: the first position at or after \<open>from\<close>, or \<open>-1\<close>.\<close>

fun indexOf_aux :: "string \<Rightarrow> string \<Rightarrow> nat \<Rightarrow> int" where
  "indexOf_aux sub [] i = (if sub = [] then int i else -1)"
| "indexOf_aux sub (c # cs) i =
     (if prefix sub (c # cs) then int i else indexOf_aux sub cs (Suc i))"

definition js_indexOf :: "string \<Rightarrow> string \<Rightarrow> nat \<Rightarrow> int" where
  "js_indexOf s sub from = indexOf_aux sub (drop from s) (min from (length s))"

definition js_includes :: "string \<Rightarrow> string \<Rightarrow> bool" where
  "js_includes s sub \<longleftrightarrow> js_indexOf s sub 0 \<noteq> -1"

text \<open>\<^verbatim>\<open>s.slice(start, end)\<close>: a negative index counts from the end of the string.\<close>

definition slice_index :: "nat \<Rightarrow> int \<Rightarrow> nat" where
  "slice_index len i = (if i < 0 then nat (max (int len + i) 0) else min (nat i) len)"

definition js_slice :: "string \<Rightarrow> int \<Rightarrow> int \<Rightarrow> string" where
  "js_slice s start end =
     (let from = slice_index (length s) start;
          to = slice_index (length s) end
      in take (to - from) (drop from s))"

text \<open>\<^verbatim>\<open>s.replace("'", '')\<close> with a string pattern removes the first occurrence only.\<close>

definition replace_first_quote :: "string \<Rightarrow> string" where
  "replace_first_quote s = remove1 quote s"

text \<open>
  \<^verbatim>\<open>s.trim()\<close> removes white space and line terminators from both ends. Among the
  characters of this model (the code units below 256) these are tab, line feed, vertical
  tab, form feed, carriage return, space and the no-break space.
\<close>

definition is_space :: "char \<Rightarrow> bool" where
  "is_space c \<longleftrightarrow>
     c \<in> set [CHR 0x20, CHR 0x09, CHR 0x0A, CHR 0x0B, CHR 0x0C, CHR 0x0D, CHR 0xA0]"

definition js_trim :: "string \<Rightarrow> string" where
  "js_trim s = rev (dropWhile is_space (rev (dropWhile is_space s)))"

text \<open>\<^verbatim>\<open>s.replace(/\\/g, '/')\<close>: every backslash becomes a forward slash.\<close>

definition normalize_slashes :: "string \<Rightarrow> string" where
  "normalize_slashes s = map (\<lambda>c. if c = backslash then CHR ''/'' else c) s"

section \<open>escapeRe\<close>

text \<open>
  \<^verbatim>\<open>const escapeRe = (s) => s.replace(/[.*+\-?^${}()|[\]\\]/g, '\\$&')\<close>:
  every character of the class is replaced by a backslash followed by itself.
\<close>

definition re_special :: "char list" where
  "re_special = ''.*+-?^${}()|[]'' @ [backslash]"

definition escapeRe :: "string \<Rightarrow> string" where
  "escapeRe s = concat (map (\<lambda>c. if c \<in> set re_special then [backslash, c] else [c]) s)"

section \<open>The test tree as the runner reads it\<close>

text \<open>
  \<^verbatim>\<open>itemData.get(item)\<close> yields a \<^verbatim>\<open>TestCase\<close> or \<^verbatim>\<open>TestSuite\<close> (both carry
  \<^verbatim>\<open>fullName\<close>), a \<^verbatim>\<open>TestFile\<close> (carrying the file-system paths of its workspace
  folder and of the file), or nothing. A \<^verbatim>\<open>vscode.TestItem\<close> has an optional
  \<^verbatim>\<open>uri\<close> and an optional \<^verbatim>\<open>parent\<close>.
\<close>

datatype ItemData =
    is_TestCase: TestCase (fullName: string)
  | is_TestSuite: TestSuite (fullName: string)
  | is_TestFile: TestFile (workspaceFolder: string) (fsPath: string)

datatype TestItem =
  TestItem (uri: "string option") (idata: "ItemData option") (parent: "TestItem option")

text \<open>The items visited by \<^verbatim>\<open>for (let p = test.parent; p; p = p.parent)\<close>.\<close>

fun ancestors :: "TestItem \<Rightarrow> TestItem list" where
  "ancestors (TestItem u d None) = []"
| "ancestors (TestItem u d (Some p)) = p # ancestors p"

text \<open>\<^verbatim>\<open>Set.prototype.add\<close> on a set that iterates in insertion order.\<close>

definition set_add :: "'a \<Rightarrow> 'a list \<Rightarrow> 'a list" where
  "set_add x xs = (if x \<in> set xs then xs else xs @ [x])"

section \<open>Runner configuration discovery\<close>

text \<open>
  What the runner reads from the workspace: the results of
  \<^verbatim>\<open>vscode.workspace.findFiles("karma.conf.ts")\<close> and of
  \<^verbatim>\<open>findFiles("karma.conf.js")\<close> (the paths of the URIs found), and \<^verbatim>\<open>readFile\<close>,
  which catches every read error and returns \<^verbatim>\<open>undefined\<close> (\<open>None\<close>) then.
\<close>

record Workspace =
  karmaConfTs :: "string list"
  karmaConfJs :: "string list"
  readFile :: "string \<Rightarrow> string option"

datatype error =
    TypeError string
  | Error string

definition configFiles :: "Workspace \<Rightarrow> string list" where
  "configFiles ws = (if karmaConfTs ws = [] then karmaConfJs ws else karmaConfTs ws)"

definition getConfigName :: "Workspace \<Rightarrow> string" where
  "getConfigName ws =
     (case configFiles ws of
        [] \<Rightarrow> []
      | f # _ \<Rightarrow> ''--karma-config='' @ last (js_split ''/'' f))"

text \<open>
  \<^verbatim>\<open>arrString.split('[')[1]\<close> is \<^verbatim>\<open>undefined\<close> when \<^verbatim>\<open>arrString\<close> holds no
  \<^verbatim>\<open>[\<close>; the call \<^verbatim>\<open>reportersString.split(', ')\<close> on it throws a \<^verbatim>\<open>TypeError\<close>.
\<close>

definition reporters_of :: "string \<Rightarrow> error + string" where
  "reporters_of content =
     (if js_includes content ''reporters: '' then
        (let startIndex = js_indexOf content ''reporters: '' 0;
             endIndex = js_indexOf content '']'' (nat startIndex);
             arrString = js_slice content startIndex endIndex
         in case js_split ''['' arrString of
              _ # reportersString # _ \<Rightarrow>
                Inr (''--reporters='' @
                     js_join '',''
                       (map (\<lambda>rep. js_trim (replace_first_quote (replace_first_quote rep)))
                            (js_split '', '' reportersString)))
            | _ \<Rightarrow> Inl (TypeError ''Cannot read properties of undefined''))
      else Inr [])"

definition getReporters :: "Workspace \<Rightarrow> error + string" where
  "getReporters ws =
     (case configFiles ws of
        [] \<Rightarrow> Inr []
      | f # _ \<Rightarrow>
          (case readFile ws f of
             None \<Rightarrow> Inr []
           | Some content \<Rightarrow> if content = [] then Inr [] else reporters_of content))"

section \<open>prepareArgs\<close>

datatype TestRunProfileKind = Run | Debug | Coverage

text \<open>
  The runner object: its workspace (what file discovery finds there, and the path of the
  folder), its profile kind and the optional
  \<^verbatim>\<open>continuousMode\<close> constructor argument. \<^verbatim>\<open>path.relative\<close> is a parameter
  of the model (\<open>relative from to\<close>).
\<close>

record Runner =
  workspace :: Workspace
  workspaceFsPath :: string
  runProfileKind :: TestRunProfileKind
  continuousMode :: "bool option"
  relative :: "string \<Rightarrow> string \<Rightarrow> string"

definition getDefaultArgs :: "string list" where
  "getDefaultArgs = [''npm'', ''test'']"

text \<open>\<^verbatim>\<open>args.filter(x => !!x)\<close>: \<^verbatim>\<open>undefined\<close> and the empty string are dropped.\<close>

definition truthy :: "string option list \<Rightarrow> string list" where
  "truthy xs = concat (map (\<lambda>x. case x of None \<Rightarrow> [] | Some s \<Rightarrow> if s = [] then [] else [s]) xs)"

definition commonArgs :: "Runner \<Rightarrow> string list \<Rightarrow> string \<Rightarrow> string list" where
  "commonArgs r baseArgs reporters =
     truthy (map Some getDefaultArgs @ [Some ''--''] @ map Some baseArgs @
             [Some (getConfigName (workspace r)),
              Some reporters,
              Some (if continuousMode r = Some True then ''--watch'' else ''--no-watch''),
              Some ''--browsers=ChromeHeadless'',
              if runProfileKind r = Coverage then Some ''--code-coverage'' else None])"

definition runPathOf :: "Runner \<Rightarrow> ItemData \<Rightarrow> string" where
  "runPathOf r d = normalize_slashes (relative r (workspaceFolder d) (fsPath d))"

text \<open>\<^verbatim>\<open>escapeRe(data.fullName) + (data instanceof TestCase ? '$' : ' ')\<close>\<close>

definition nameExpr :: "ItemData \<Rightarrow> string" where
  "nameExpr d = escapeRe (fullName d) @ (if is_TestCase d then ''$'' else '' '')"

text \<open>The inner loop over the ancestors: every ancestor that is a file adds its run path.\<close>

fun addParentPaths :: "Runner \<Rightarrow> TestItem list \<Rightarrow> string list \<Rightarrow> string list" where
  "addParentPaths r [] runPaths = runPaths"
| "addParentPaths r (p # ps) runPaths =
     addParentPaths r ps
       (case idata p of
          None \<Rightarrow> runPaths
        | Some parentData \<Rightarrow>
            if is_TestFile parentData then set_add (runPathOf r parentData) runPaths
            else runPaths)"

text \<open>One iteration of \<^verbatim>\<open>for (const test of filter)\<close> on the pair \<open>(grepRe, runPaths)\<close>.\<close>

definition selectItem :: "Runner \<Rightarrow> string list \<times> string list \<Rightarrow> TestItem \<Rightarrow> string list \<times> string list" where
  "selectItem r acc test =
     (case acc of (grepRe, runPaths) \<Rightarrow>
        (case idata test of
           None \<Rightarrow> (grepRe, runPaths)
         | Some d \<Rightarrow>
             if is_TestCase d \<or> is_TestSuite d
             then (grepRe @ [nameExpr d], addParentPaths r (ancestors test) runPaths)
             else (grepRe, set_add (runPathOf r d) runPaths)))"

definition selection :: "Runner \<Rightarrow> TestItem list \<Rightarrow> string list \<times> string list" where
  "selection r items = foldl (selectItem r) ([], []) items"

definition grepToken :: "string list \<Rightarrow> string" where
  "grepToken grepRe = ''/^('' @ js_join ''|'' grepRe @ '')/''"

definition filterArgs :: "Runner \<Rightarrow> TestItem list \<Rightarrow> string list" where
  "filterArgs r items =
     (case selection r items of (grepRe, runPaths) \<Rightarrow>
        (if grepRe \<noteq> [] then [''--grep'', grepToken grepRe] else []) @
        (if runPaths \<noteq> [] then concat (map (\<lambda>p. [''--run'', p]) runPaths) else []))"

definition prepareArgs :: "Runner \<Rightarrow> string list \<Rightarrow> TestItem list option \<Rightarrow> error + string list" where
  "prepareArgs r baseArgs filt =
     (case getReporters (workspace r) of
        Inl e \<Rightarrow> Inl e
      | Inr reporters \<Rightarrow>
          (case filt of
             None \<Rightarrow> Inr (commonArgs r baseArgs reporters)
           | Some items \<Rightarrow> Inr (commonArgs r baseArgs reporters @ filterArgs r items)))"

section \<open>The grep token read as a regular expression\<close>

text \<open>
  The token \<^verbatim>\<open>/^(e1|...|en)/\<close> is consumed by the test runner as a regular expression
  and tested against the full name of every test. The semantics below covers the fragment
  of ECMAScript regular expressions (no flags) in which every such token lies: a start
  anchor, one group, top-level alternatives, and in each alternative literal characters,
  escaped syntax characters, \<^verbatim>\<open>.\<close>, the quantifiers \<^verbatim>\<open>*\<close>, \<^verbatim>\<open>+\<close>, \<^verbatim>\<open>?\<close> and the end
  anchor \<^verbatim>\<open>$\<close>. Anything else (character classes, braces, nested groups, class escapes
  such as \<^verbatim>\<open>\d\<close>) is outside the fragment and yields \<open>None\<close>.
\<close>

datatype tok =
    TChar char
  | TDot
  | TStar
  | TPlus
  | TQuest
  | TDollar
  | TBar
  | TCaret
  | TOpen
  | TClose
  | TUnsupported

definition tok_of :: "char \<Rightarrow> tok" where
  "tok_of c =
     (if c = CHR ''.'' then TDot
      else if c = CHR ''*'' then TStar
      else if c = CHR ''+'' then TPlus
      else if c = CHR ''?'' then TQuest
      else if c = CHR ''$'' then TDollar
      else if c = CHR ''|'' then TBar
      else if c = CHR ''^'' then TCaret
      else if c = CHR ''('' then TOpen
      else if c = CHR '')'' then TClose
      else if c \<in> set ''[]{}'' then TUnsupported
      else TChar c)"

text \<open>A backslash followed by a syntax character, \<^verbatim>\<open>-\<close> or \<^verbatim>\<open>/\<close> stands for that character.\<close>

fun lex :: "string \<Rightarrow> tok list option" where
  "lex [] = Some []"
| "lex (c # cs) =
     (if c = backslash then
        (case cs of
           [] \<Rightarrow> None
         | d # ds \<Rightarrow>
             if d \<in> set re_special \<or> d = CHR ''/''
             then map_option ((#) (TChar d)) (lex ds)
             else None)
      else map_option ((#) (tok_of c)) (lex cs))"

datatype atom = Lit char | AnyChar

datatype piece = One atom | Star atom | Opt atom | Eol

definition atom_of :: "tok \<Rightarrow> atom option" where
  "atom_of t = (case t of TChar c \<Rightarrow> Some (Lit c) | TDot \<Rightarrow> Some AnyChar | _ \<Rightarrow> None)"

fun parse_branch :: "tok list \<Rightarrow> piece list option" where
  "parse_branch [] = Some []"
| "parse_branch (t # ts) =
     (case atom_of t of
        Some a \<Rightarrow>
          (case ts of
             TStar # r \<Rightarrow> map_option ((#) (Star a)) (parse_branch r)
           | TPlus # r \<Rightarrow> map_option (\<lambda>ps. One a # Star a # ps) (parse_branch r)
           | TQuest # r \<Rightarrow> map_option ((#) (Opt a)) (parse_branch r)
           | _ \<Rightarrow> map_option ((#) (One a)) (parse_branch ts))
      | None \<Rightarrow>
          (if t = TDollar then map_option ((#) Eol) (parse_branch ts) else None))"

fun split_alts :: "tok list \<Rightarrow> tok list list" where
  "split_alts [] = [[]]"
| "split_alts (t # ts) =
     (if t = TBar then [] # split_alts ts
      else (case split_alts ts of
              [] \<Rightarrow> [[t]]
            | h # r \<Rightarrow> (t # h) # r))"

definition parse_anchored_group :: "tok list \<Rightarrow> piece list list option" where
  "parse_anchored_group ts =
     (case ts of
        TCaret # TOpen # rest \<Rightarrow>
          (case rev rest of
             TClose # body \<Rightarrow> those (map parse_branch (split_alts (rev body)))
           | _ \<Rightarrow> None)
      | _ \<Rightarrow> None)"

text \<open>\<^verbatim>\<open>.\<close> matches every character except a line terminator.\<close>

definition atom_ok :: "atom \<Rightarrow> char \<Rightarrow> bool" where
  "atom_ok a c = (case a of Lit d \<Rightarrow> c = d | AnyChar \<Rightarrow> c \<noteq> CHR 0x0A \<and> c \<noteq> CHR 0x0D)"

text \<open>Whether the pieces match a prefix of the input (the expression has no end anchor of its own).\<close>

fun match_pieces :: "piece list \<Rightarrow> string \<Rightarrow> bool" where
  "match_pieces [] s = True"
| "match_pieces (One a # ps) [] = False"
| "match_pieces (One a # ps) (c # cs) = (atom_ok a c \<and> match_pieces ps cs)"
| "match_pieces (Eol # ps) s = (s = [] \<and> match_pieces ps s)"
| "match_pieces (Opt a # ps) [] = match_pieces ps []"
| "match_pieces (Opt a # ps) (c # cs) =
     (match_pieces ps (c # cs) \<or> (atom_ok a c \<and> match_pieces ps cs))"
| "match_pieces (Star a # ps) [] = match_pieces ps []"
| "match_pieces (Star a # ps) (c # cs) =
     (match_pieces ps (c # cs) \<or> (atom_ok a c \<and> match_pieces (Star a # ps) cs))"

definition regex_source :: "string \<Rightarrow> string option" where
  "regex_source token =
     (if 2 \<le> length token \<and> hd token = CHR ''/'' \<and> last token = CHR ''/''
      then Some (butlast (tl token)) else None)"

definition parse_grep :: "string \<Rightarrow> piece list list option" where
  "parse_grep token =
     (case regex_source token of
        None \<Rightarrow> None
      | Some src \<Rightarrow> (case lex src of None \<Rightarrow> None | Some ts \<Rightarrow> parse_anchored_group ts))"

definition grep_matches :: "string \<Rightarrow> string \<Rightarrow> bool option" where
  "grep_matches token name =
     map_option (\<lambda>alts. list_ex (\<lambda>ps. match_pieces ps name) alts) (parse_grep token)"

text \<open>
  The reading of a selection that the theorems below compare the token with: the data of
  the selected cases and suites in selection order, and the test names that one of them
  covers (a case covers its own full name, a suite every name that continues its full
  name after a space).
\<close>

definition named :: "TestItem list \<Rightarrow> ItemData list" where
  "named items =
     concat (map (\<lambda>t. case idata t of
                         None \<Rightarrow> []
                       | Some d \<Rightarrow> if is_TestCase d \<or> is_TestSuite d then [d] else []) items)"

definition covers :: "ItemData \<Rightarrow> string \<Rightarrow> bool" where
  "covers d t = (if is_TestCase d then t = fullName d else prefix (fullName d @ '' '') t)"

text \<open>
  The run paths that one selected item contributes, in the order the loop adds them: those
  of its file ancestors for a case or suite, its own for a file.
\<close>

definition ancestorPaths :: "Runner \<Rightarrow> TestItem \<Rightarrow> string list" where
  "ancestorPaths r test =
     concat (map (\<lambda>p. case idata p of
                         None \<Rightarrow> []
                       | Some d \<Rightarrow> if is_TestFile d then [runPathOf r d] else [])
                 (ancestors test))"

definition itemPaths :: "Runner \<Rightarrow> TestItem \<Rightarrow> string list" where
  "itemPaths r test =
     (case idata test of
        None \<Rightarrow> []
      | Some d \<Rightarrow> if is_TestCase d \<or> is_TestSuite d then ancestorPaths r test
                  else [runPathOf r d])"

definition add_all :: "'a list \<Rightarrow> 'a list \<Rightarrow> 'a list" where
  "add_all acc xs = foldl (\<lambda>a x. set_add x a) acc xs"

text \<open>The tokens and the pieces of the alternative that \<open>nameExpr\<close> stands for.\<close>

definition branch_toks :: "ItemData \<Rightarrow> tok list" where
  "branch_toks d = map TChar (fullName d) @ [if is_TestCase d then TDollar else TChar CHR '' '']"

definition branch_pieces :: "ItemData \<Rightarrow> piece list" where
  "branch_pieces d =
     map (\<lambda>c. One (Lit c)) (fullName d) @ [if is_TestCase d then Eol else One (Lit CHR '' '')]"

fun join_bar :: "tok list list \<Rightarrow> tok list" where
  "join_bar [] = []"
| "join_bar [b] = b"
| "join_bar (b # c # bs) = b @ TBar # join_bar (c # bs)"

section \<open>The continuous run handler\<close>

text \<open>
  \<^verbatim>\<open>new vscode.TestRunRequest(include, exclude, profile, continuous)\<close>. The profile is
  opaque to the handler and stands as a number.
\<close>

record TestRunRequest =
  req_include :: "TestItem list option"
  req_exclude :: "TestItem list option"
  req_profile :: "nat option"
  req_continuous :: bool

text \<open>\<^verbatim>\<open>type FileChangeEvent = { uri: vscode.Uri; removed: boolean }\<close>\<close>

datatype FileChangeEvent = FileChangeEvent (ev_uri: string) (removed: bool)

text \<open>
  The variables that the closure of one continuous request holds, and what the host keeps
  for it: \<open>queuedFiles\<close> (a set in insertion order), \<open>debounced\<close> (the handle last
  returned by \<^verbatim>\<open>setTimeout\<close>), the timers that are armed, the next fresh handle, whether
  the listener is still registered, and the calls of \<^verbatim>\<open>doTestRun\<close> made so far.
\<close>

record Scheduler =
  queuedFiles :: "string list"
  debounced :: "nat option"
  timers :: "nat list"
  nextTimer :: nat
  listening :: bool
  runs :: "TestRunRequest list"

definition newScheduler :: Scheduler where
  "newScheduler =
     \<lparr>queuedFiles = [], debounced = None, timers = [], nextTimer = 0, listening = True,
      runs = []\<rparr>"

text \<open>\<^verbatim>\<open>clearTimeout(debounced)\<close>: the timer with that handle, if armed, is disarmed.\<close>

definition clearTimeout :: "Scheduler \<Rightarrow> Scheduler" where
  "clearTimeout s =
     (case debounced s of
        None \<Rightarrow> s
      | Some h \<Rightarrow> s\<lparr>timers := removeAll h (timers s)\<rparr>)"

text \<open>\<^verbatim>\<open>debounced = setTimeout(..., 1000)\<close>\<close>

definition setTimeout :: "Scheduler \<Rightarrow> Scheduler" where
  "setTimeout s =
     s\<lparr>debounced := Some (nextTimer s), timers := timers s @ [nextTimer s],
       nextTimer := Suc (nextTimer s)\<rparr>"

text \<open>\<^verbatim>\<open>req.include && !req.include.some(i => i.uri?.toString() === uri.toString())\<close>\<close>

definition notIncluded :: "TestRunRequest \<Rightarrow> string \<Rightarrow> bool" where
  "notIncluded req u =
     (case req_include req of
        None \<Rightarrow> False
      | Some inc \<Rightarrow> \<not> list_ex (\<lambda>i. uri i = Some u) inc)"

text \<open>The listener registered on \<^verbatim>\<open>fileChangedEmitter.event\<close>.\<close>

definition onFileChanged :: "TestRunRequest \<Rightarrow> Scheduler \<Rightarrow> FileChangeEvent \<Rightarrow> Scheduler" where
  "onFileChanged req s e =
     (let s1 = clearTimeout s in
      if notIncluded req (ev_uri e) then s1
      else
        (let s2 = (if removed e
                   then s1\<lparr>queuedFiles := removeAll (ev_uri e) (queuedFiles s1)\<rparr>
                   else s1\<lparr>queuedFiles := set_add (ev_uri e) (queuedFiles s1)\<rparr>)
         in setTimeout s2))"

text \<open>
  The include list computed when the timer fires. \<open>getOrCreateFile\<close> (which needs the
  test controller) is a parameter: it yields the file item of a URI, or nothing.
\<close>

definition newInclude ::
  "(string \<Rightarrow> TestItem option) \<Rightarrow> TestRunRequest \<Rightarrow> string list \<Rightarrow> TestItem list" where
  "newInclude getOrCreateFile req queued =
     (case req_include req of
        Some inc \<Rightarrow>
          filter (\<lambda>t. case uri t of None \<Rightarrow> False | Some u \<Rightarrow> u \<in> set queued) inc
      | None \<Rightarrow>
          concat (map (\<lambda>f. case getOrCreateFile f of None \<Rightarrow> [] | Some i \<Rightarrow> [i]) queued))"

text \<open>The callback passed to \<^verbatim>\<open>setTimeout\<close>.\<close>

definition onTimeout ::
  "(string \<Rightarrow> TestItem option) \<Rightarrow> TestRunRequest \<Rightarrow> Scheduler \<Rightarrow> Scheduler" where
  "onTimeout getOrCreateFile req s =
     (let inc = newInclude getOrCreateFile req (queuedFiles s) in
      s\<lparr>queuedFiles := [],
        runs := runs s @
          [\<lparr>req_include = Some inc, req_exclude = req_exclude req,
            req_profile = req_profile req, req_continuous = True\<rparr>]\<rparr>)"

text \<open>\<^verbatim>\<open>cancellationToken.onCancellationRequested\<close>\<close>

definition onCancellationRequested :: "Scheduler \<Rightarrow> Scheduler" where
  "onCancellationRequested s = (clearTimeout s)\<lparr>listening := False\<rparr>"

text \<open>
  What can happen to the handler: the emitter fires (the listener runs while it is
  registered), an armed timer expires (its callback runs once), cancellation is requested.
\<close>

datatype SchedulerEvent =
    FileChanged FileChangeEvent
  | TimerFires nat
  | CancellationRequested

definition sched_step ::
  "(string \<Rightarrow> TestItem option) \<Rightarrow> TestRunRequest \<Rightarrow> Scheduler \<Rightarrow> SchedulerEvent \<Rightarrow> Scheduler" where
  "sched_step getOrCreateFile req s ev =
     (case ev of
        FileChanged e \<Rightarrow> if listening s then onFileChanged req s e else s
      | TimerFires h \<Rightarrow>
          if h \<in> set (timers s)
          then onTimeout getOrCreateFile req (s\<lparr>timers := removeAll h (timers s)\<rparr>)
          else s
      | CancellationRequested \<Rightarrow> onCancellationRequested s)"

definition sched_run ::
  "(string \<Rightarrow> TestItem option) \<Rightarrow> TestRunRequest \<Rightarrow> Scheduler \<Rightarrow> SchedulerEvent list \<Rightarrow> Scheduler" where
  "sched_run getOrCreateFile req s evs = foldl (sched_step getOrCreateFile req) s evs"

text \<open>
  At most one timer is armed, and it is the one whose handle \<open>debounced\<close> holds. Every
  state that the handler reaches has this property.
\<close>

definition one_timer :: "Scheduler \<Rightarrow> bool" where
  "one_timer s \<longleftrightarrow> timers s = [] \<or> (\<exists>h. debounced s = Some h \<and> timers s = [h])"

section \<open>The debug flow\<close>

definition ATTACH_CONFIG_NAME :: string where
  "ATTACH_CONFIG_NAME = ''Attach to VS Code''"

definition DEBUG_TYPE :: string where
  "DEBUG_TYPE = ''pwa-chrome''"

datatype DebugConfiguration =
  DebugConfiguration (cfg_name: string) (cfg_type: string) (cfg_request: string)

subsection \<open>createWaitServer\<close>

text \<open>
  The state behind the object that \<open>createWaitServer\<close> returns: the flag \<open>ready\<close>, the
  sockets whose \<^verbatim>\<open>() => socket.end()\<close> is registered on the \<open>onReady\<close> emitter, the calls
  of \<^verbatim>\<open>socket.end()\<close> made so far, and whether \<^verbatim>\<open>server.close()\<close> was called. Sockets
  are numbered.
\<close>

record WaitServer =
  ready :: bool
  onReady :: "nat list"
  ended :: "nat list"
  closed :: bool

definition createWaitServer :: WaitServer where
  "createWaitServer = \<lparr>ready = False, onReady = [], ended = [], closed = False\<rparr>"

text \<open>The connection callback of \<^verbatim>\<open>createServer\<close>.\<close>

definition onConnection :: "WaitServer \<Rightarrow> nat \<Rightarrow> WaitServer" where
  "onConnection g socket =
     (if ready g then g\<lparr>ended := ended g @ [socket]\<rparr>
      else g\<lparr>onReady := onReady g @ [socket]\<rparr>)"

text \<open>\<^verbatim>\<open>ready: () => { ready = true; onReady.fire(); }\<close>: every registered listener runs.\<close>

definition server_ready :: "WaitServer \<Rightarrow> WaitServer" where
  "server_ready g = g\<lparr>ready := True, ended := ended g @ onReady g\<rparr>"

text \<open>\<^verbatim>\<open>dispose: () => { server.close(); }\<close>: no further connection is accepted.\<close>

definition server_dispose :: "WaitServer \<Rightarrow> WaitServer" where
  "server_dispose g = g\<lparr>closed := True\<rparr>"

subsection \<open>debug\<close>

text \<open>What \<open>debug\<close> does to the outside, in order, next to the value it returns or throws.\<close>

datatype effect =
    ServerListen
  | SpawnProcess string string
  | RegisterTrackerFactory string
  | RegisterExitHandler
  | RegisterSessionListener

definition debug ::
  "Runner \<Rightarrow> DebugConfiguration list \<Rightarrow> string list \<Rightarrow> TestItem list option \<Rightarrow>
   (error + string list) \<times> effect list" where
  "debug r configurations baseArgs filt =
     (case find (\<lambda>c. cfg_name c = ATTACH_CONFIG_NAME) configurations of
        None \<Rightarrow> (Inl (Error (''Could not find launch config '' @ ATTACH_CONFIG_NAME)), [])
      | Some baseConfig \<Rightarrow>
          (case prepareArgs r baseArgs filt of
             Inl e \<Rightarrow> (Inl e, [ServerListen])
           | Inr args \<Rightarrow>
               (Inr args,
                [ServerListen,
                 SpawnProcess (js_join '' '' args) (workspaceFsPath r),
                 RegisterTrackerFactory DEBUG_TYPE,
                 RegisterExitHandler,
                 RegisterSessionListener])))"

subsection \<open>The handlers that debug registers\<close>

text \<open>
  A debug session has an identity, a name and possibly a parent session (given by its
  identity). A debug adapter message has a type, possibly a command, a sequence number
  and, for a response, the sequence number of its request.
\<close>

datatype DebugSession =
  DebugSession (sessionId: nat) (sessionName: string) (parentSession: "nat option")

datatype Message =
  Message (msg_type: string) (command: "string option") (seq: nat) (request_seq: "nat option")

text \<open>
  The variables shared by the handlers of one \<open>debug\<close> call: the wait server,
  \<open>exited\<close>, \<open>rootSession\<close>, the arguments of the calls of
  \<^verbatim>\<open>vscode.debug.stopDebugging\<close> made so far, whether the session listener and the tracker
  factory were disposed, and \<open>initRequestId\<close> of every tracker created.
\<close>

record DebugRun =
  server :: WaitServer
  exited :: bool
  rootSession :: "DebugSession option"
  stopRequests :: "DebugSession option list"
  listenerDisposed :: bool
  factoryDisposed :: bool
  trackers :: "nat option list"

definition startDebugRun :: DebugRun where
  "startDebugRun =
     \<lparr>server = createWaitServer, exited = False, rootSession = None, stopRequests = [],
      listenerDisposed = False, factoryDisposed = False, trackers = []\<rparr>"

text \<open>The handler of \<^verbatim>\<open>cp.once('exit', ...)\<close>.\<close>

definition onExit :: "DebugRun \<Rightarrow> DebugRun" where
  "onExit st =
     (let st1 = st\<lparr>exited := True, server := server_dispose (server st),
                    listenerDisposed := True, factoryDisposed := True\<rparr>
      in case rootSession st1 of
           None \<Rightarrow> st1
         | Some root \<Rightarrow> st1\<lparr>stopRequests := stopRequests st1 @ [Some root]\<rparr>)"

text \<open>The listener of \<^verbatim>\<open>vscode.debug.onDidStartDebugSession\<close>.\<close>

definition onDidStartDebugSession :: "DebugRun \<Rightarrow> DebugSession \<Rightarrow> DebugRun" where
  "onDidStartDebugSession st s =
     (if sessionName s = ATTACH_CONFIG_NAME \<and> rootSession st = None then
        (if exited st then st\<lparr>stopRequests := stopRequests st @ [rootSession st]\<rparr>
         else st\<lparr>rootSession := Some s\<rparr>)
      else st)"

text \<open>\<open>createDebugAdapterTracker\<close>: a tracker only for a child of the root session.\<close>

definition createDebugAdapterTracker :: "DebugRun \<Rightarrow> DebugSession \<Rightarrow> DebugRun" where
  "createDebugAdapterTracker st session =
     (if parentSession session = None \<or>
         parentSession session \<noteq> map_option sessionId (rootSession st)
      then st
      else st\<lparr>trackers := trackers st @ [None]\<rparr>)"

definition onWillReceiveMessage :: "DebugRun \<Rightarrow> nat \<Rightarrow> Message \<Rightarrow> DebugRun" where
  "onWillReceiveMessage st k message =
     (if trackers st ! k \<noteq> None then st
      else if command message = Some ''launch'' \<or> command message = Some ''attach''
      then st\<lparr>trackers := (trackers st)[k := Some (seq message)]\<rparr>
      else st)"

definition onDidSendMessage :: "DebugRun \<Rightarrow> nat \<Rightarrow> Message \<Rightarrow> DebugRun" where
  "onDidSendMessage st k message =
     (if msg_type message = ''response'' \<and> request_seq message = trackers st ! k
      then st\<lparr>server := server_ready (server st)\<rparr>
      else st)"

text \<open>
  What can happen during one debug run. A connection reaches the callback while the
  server listens; a started session reaches the listener, and a tracker request the
  factory, until they are disposed; messages reach the trackers that exist; the exit
  handler runs once.
\<close>

datatype DebugEvent =
    Connection nat
  | SessionStarted DebugSession
  | TrackerRequested DebugSession
  | WillReceive nat Message
  | DidSend nat Message
  | ProcessExit

definition debug_step :: "DebugRun \<Rightarrow> DebugEvent \<Rightarrow> DebugRun" where
  "debug_step st ev =
     (case ev of
        Connection socket \<Rightarrow>
          if closed (server st) then st else st\<lparr>server := onConnection (server st) socket\<rparr>
      | SessionStarted s \<Rightarrow> if listenerDisposed st then st else onDidStartDebugSession st s
      | TrackerRequested s \<Rightarrow> if factoryDisposed st then st else createDebugAdapterTracker st s
      | WillReceive k m \<Rightarrow> if k < length (trackers st) then onWillReceiveMessage st k m else st
      | DidSend k m \<Rightarrow> if k < length (trackers st) then onDidSendMessage st k m else st
      | ProcessExit \<Rightarrow> if exited st then st else onExit st)"

definition debug_run :: "DebugRun \<Rightarrow> DebugEvent list \<Rightarrow> DebugRun" where
  "debug_run st evs = foldl debug_step st evs"

text \<open>How often \<open>ready\<close> changes from false to true along the events.\<close>

fun readyFlips :: "DebugRun \<Rightarrow> DebugEvent list \<Rightarrow> nat" where
  "readyFlips st [] = 0"
| "readyFlips st (ev # evs) =
     (if \<not> ready (server st) \<and> ready (server (debug_step st ev)) then 1 else 0) +
     readyFlips (debug_step st ev) evs"

text \<open>
  The events on which a tracker calls \<^verbatim>\<open>server.ready()\<close>: a message sent by the adapter
  reaches an existing tracker and is a response whose \<^verbatim>\<open>request_seq\<close> equals the
  tracker's \<open>initRequestId\<close> (both may be undefined). \<open>readySignals\<close> counts these
  calls along the events.
\<close>

definition readySignal :: "DebugRun \<Rightarrow> DebugEvent \<Rightarrow> bool" where
  "readySignal st ev =
     (case ev of
        DidSend k m \<Rightarrow>
          k < length (trackers st) \<and> msg_type m = ''response'' \<and>
          request_seq m = trackers st ! k
      | _ \<Rightarrow> False)"

fun readySignals :: "DebugRun \<Rightarrow> DebugEvent list \<Rightarrow> nat" where
  "readySignals st [] = 0"
| "readySignals st (ev # evs) =
     (if readySignal st ev then 1 else 0) + readySignals (debug_step st ev) evs"

text \<open>
  Two properties of the shared variables used in the proofs: what the stop requests are in
  a run, and the state in which no root session is recorded and the process still runs.
\<close>

definition stops_inv :: "DebugRun \<Rightarrow> bool" where
  "stops_inv st \<longleftrightarrow>
     (exited st \<longrightarrow> listenerDisposed st) \<and>
     stopRequests st =
       (if exited st then (case rootSession st of None \<Rightarrow> [] | Some root \<Rightarrow> [Some root]) else [])"

definition waiting :: "DebugRun \<Rightarrow> bool" where
  "waiting st \<longleftrightarrow> rootSession st = None \<and> \<not> exited st \<and> \<not> listenerDisposed st"

section \<open>Concrete inputs\<close>

text \<open>
  A workspace without a karma configuration, a runner for it whose \<open>relative\<close> strips
  the folder and the separator after it (what \<^verbatim>\<open>path.relative\<close> returns for a file below
  the folder), and the three kinds of tree items: a file at the root, and suites and cases
  below a parent, sharing its \<^verbatim>\<open>uri\<close>.
\<close>

definition noFile :: "string \<Rightarrow> string option" where
  "noFile p = None"

definition emptyWorkspace :: Workspace where
  "emptyWorkspace = \<lparr>karmaConfTs = [], karmaConfJs = [], readFile = noFile\<rparr>"

definition relativeBelow :: "string \<Rightarrow> string \<Rightarrow> string" where
  "relativeBelow folder file = drop (Suc (length folder)) file"

definition exampleRunner :: Runner where
  "exampleRunner =
     \<lparr>workspace = emptyWorkspace, workspaceFsPath = ''/w'', runProfileKind = Run,
      continuousMode = None,
      relative = relativeBelow\<rparr>"

definition fileItem :: "string \<Rightarrow> string \<Rightarrow> TestItem" where
  "fileItem folder file = TestItem (Some file) (Some (TestFile folder file)) None"

definition suiteItem :: "string \<Rightarrow> TestItem \<Rightarrow> TestItem" where
  "suiteItem name p = TestItem (uri p) (Some (TestSuite name)) (Some p)"

definition caseItem :: "string \<Rightarrow> TestItem \<Rightarrow> TestItem" where
  "caseItem name p = TestItem (uri p) (Some (TestCase name)) (Some p)"

definition specFile :: TestItem where
  "specFile = fileItem ''/w'' ''/w/src/app.spec.ts''"

definition otherFile :: TestItem where
  "otherFile = fileItem ''/w'' ''/w/src/util.spec.ts''"

definition fooSuite :: TestItem where
  "fooSuite = suiteItem ''Foo'' specFile"

definition fooBarSuite :: TestItem where
  "fooBarSuite = suiteItem ''FooBar'' specFile"

definition metaCase :: TestItem where
  "metaCase = caseItem ''A.B*C'' specFile"

definition threeCases :: "TestItem list" where
  "threeCases =
     [caseItem ''a'' specFile, caseItem ''b'' specFile, caseItem ''S c'' (suiteItem ''S'' specFile)]"

definition malformedConf :: "string \<Rightarrow> string option" where
  "malformedConf p = Some ''module.exports = { reporters: 'progress' }''"

definition malformedWorkspace :: Workspace where
  "malformedWorkspace =
     \<lparr>karmaConfTs = [], karmaConfJs = [''/w/karma.conf.js''], readFile = malformedConf\<rparr>"

definition fileA :: TestItem where
  "fileA = fileItem ''/w'' ''file:///w/src/a.spec.ts''"

definition fileB :: TestItem where
  "fileB = fileItem ''/w'' ''file:///w/src/b.spec.ts''"

definition watchAB :: TestRunRequest where
  "watchAB =
     \<lparr>req_include = Some [fileA, fileB], req_exclude = None, req_profile = None,
      req_continuous = True\<rparr>"

definition watchA :: TestRunRequest where
  "watchA =
     \<lparr>req_include = Some [fileA], req_exclude = None, req_profile = None,
      req_continuous = True\<rparr>"

definition fileOf :: "string \<Rightarrow> TestItem option" where
  "fileOf u = Some (fileItem ''/w'' u)"

definition uriA :: string where
  "uriA = ''file:///w/src/a.spec.ts''"

definition uriB :: string where
  "uriB = ''file:///w/src/b.spec.ts''"

definition attachConfig :: DebugConfiguration where
  "attachConfig = DebugConfiguration ''Attach to VS Code'' ''pwa-chrome'' ''attach''"

definition launchConfig :: DebugConfiguration where
  "launchConfig = DebugConfiguration ''Launch Chrome'' ''pwa-chrome'' ''launch''"

definition rootA :: DebugSession where
  "rootA = DebugSession 1 ''Attach to VS Code'' None"

definition rootB :: DebugSession where
  "rootB = DebugSession 2 ''Attach to VS Code'' None"

definition childA :: DebugSession where
  "childA = DebugSession 3 ''Chrome tab'' (Some 1)"

definition attachRequest :: Message where
  "attachRequest = Message ''request'' (Some ''attach'') 7 None"

definition bareResponse :: Message where
  "bareResponse = Message ''response'' None 5 None"

definition attachResponse :: Message where
  "attachResponse = Message ''response'' (Some ''attach'') 12 (Some 7)"

section \<open>Lexing an escaped name\<close>

lemma tok_of_plain: "c \<notin> set re_special \<Longrightarrow> tok_of c = TChar c \<and> c \<noteq> backslash"
  unfolding tok_of_def re_special_def by simp

lemma lex_Cons_plain: "c \<noteq> backslash \<Longrightarrow> lex (c # cs) = map_option ((#) (tok_of c)) (lex cs)"
  by simp

lemma lex_Cons_esc: "d \<in> set re_special \<or> d = CHR ''/'' \<Longrightarrow> lex (backslash # d # ds) = map_option ((#) (TChar d)) (lex ds)"
  by simp

lemma lex_bs_other: "\<not> (d \<in> set re_special \<or> d = CHR ''/'') \<Longrightarrow> lex (backslash # d # ds) = None"
  by simp

lemma lex_bs_end: "lex [backslash] = None"
  by simp

declare lex.simps(2) [simp del]

lemma lex_append: "lex a = Some ta \<Longrightarrow> lex (a @ b) = map_option ((@) ta) (lex b)"
proof (induction a arbitrary: ta rule: lex.induct)
  case 1
  then show ?case by (simp add: option.map_ident)
next
  case (2 c cs)
  show ?case
  proof (cases "c = backslash")
    case False
    with 2 show ?thesis
      by (cases "lex b") (auto simp: lex_Cons_plain)
  next
    case True
    note bs = this
    show ?thesis
    proof (cases cs)
      case Nil
      with 2 bs show ?thesis by (simp add: lex_bs_end)
    next
      case (Cons d ds)
      show ?thesis
      proof (cases "d \<in> set re_special \<or> d = CHR ''/''")
        case True
        from 2(1)[OF bs Cons True] 2(3) bs Cons True show ?thesis
          by (cases "lex b") (auto simp: lex_Cons_esc)
      next
        case False
        with 2 bs Cons show ?thesis by (simp add: lex_bs_other)
      qed
    qed
  qed
qed

lemma lex_escapeRe: "lex (escapeRe n) = Some (map TChar n)"
proof (induction n)
  case Nil
  then show ?case by (simp add: escapeRe_def)
next
  case (Cons c n)
  have step: "escapeRe (c # n) = (if c \<in> set re_special then [backslash, c] else [c]) @ escapeRe n"
    by (simp add: escapeRe_def)
  show ?case
  proof (cases "c \<in> set re_special")
    case True
    then show ?thesis using Cons by (simp add: step lex_Cons_esc)
  next
    case False
    then show ?thesis using Cons tok_of_plain[OF False] by (simp add: step lex_Cons_plain)
  qed
qed

section \<open>The alternatives of the grep token\<close>

lemma lex_nameExpr: "lex (nameExpr d) = Some (branch_toks d)"
proof -
  have "lex (if is_TestCase d then ''$'' else '' '') = Some [if is_TestCase d then TDollar else TChar CHR '' '']"
    by (simp add: lex_Cons_plain tok_of_def backslash_def)
  then show ?thesis
    unfolding nameExpr_def branch_toks_def
    by (simp add: lex_append[OF lex_escapeRe])
qed

lemma lex_join: "lex (js_join ''|'' (map nameExpr ds)) = Some (join_bar (map branch_toks ds))"
proof (induction ds rule: induct_list012)
  case 1
  then show ?case by simp
next
  case (2 d)
  then show ?case by (simp add: lex_nameExpr)
next
  case (3 d e ds)
  have bar: "lex (''|'' @ js_join ''|'' (map nameExpr (e # ds))) = Some (TBar # join_bar (map branch_toks (e # ds)))"
    using 3(2) by (simp add: lex_Cons_plain tok_of_def backslash_def)
  show ?case
    using lex_append[OF lex_nameExpr, of d "''|'' @ js_join ''|'' (map nameExpr (e # ds))"] bar
    by simp
qed

lemma split_alts_nobar: "TBar \<notin> set b \<Longrightarrow> split_alts b = [b]"
  by (induction b) auto

lemma split_alts_bar: "TBar \<notin> set b \<Longrightarrow> split_alts (b @ TBar # rest) = b # split_alts rest"
  by (induction b) auto

lemma branch_toks_nobar: "TBar \<notin> set (branch_toks d)"
  by (auto simp: branch_toks_def)

lemma split_join: "ds \<noteq> [] \<Longrightarrow> split_alts (join_bar (map branch_toks ds)) = map branch_toks ds"
proof (induction ds rule: induct_list012)
  case 1
  then show ?case by simp
next
  case (2 d)
  then show ?case by (simp add: split_alts_nobar branch_toks_nobar)
next
  case (3 d e ds)
  then show ?case by (simp add: split_alts_bar branch_toks_nobar)
qed

lemma parse_branch_lits:
  "parse_branch ts = Some ps \<Longrightarrow> ts \<noteq> [] \<Longrightarrow> hd ts \<notin> {TStar, TPlus, TQuest} \<Longrightarrow>
   parse_branch (map TChar n @ ts) = Some (map (\<lambda>c. One (Lit c)) n @ ps)"
proof (induction n)
  case Nil
  then show ?case by simp
next
  case (Cons c n)
  then have ih: "parse_branch (map TChar n @ ts) = Some (map (\<lambda>c. One (Lit c)) n @ ps)" by simp
  have "map TChar n @ ts \<noteq> []" using Cons.prems by simp
  moreover have "hd (map TChar n @ ts) \<notin> {TStar, TPlus, TQuest}"
    using Cons.prems by (cases n) auto
  ultimately show ?case using ih
    by (cases "map TChar n @ ts") (auto simp: atom_of_def split: tok.splits)
qed

lemma parse_branch_toks: "parse_branch (branch_toks d) = Some (branch_pieces d)"
  unfolding branch_toks_def branch_pieces_def
  by (rule parse_branch_lits) (auto simp: atom_of_def)

lemma match_lits:
  "match_pieces (map (\<lambda>c. One (Lit c)) n @ ps) t \<longleftrightarrow> prefix n t \<and> match_pieces ps (drop (length n) t)"
proof (induction n arbitrary: t)
  case Nil
  then show ?case by simp
next
  case (Cons c n)
  then show ?case by (cases t) (auto simp: atom_ok_def)
qed

lemma match_branch: "match_pieces (branch_pieces d) t \<longleftrightarrow> covers d t"
proof (cases "is_TestCase d")
  case True
  then show ?thesis
    by (auto simp: branch_pieces_def covers_def match_lits prefix_def)
next
  case False
  have "match_pieces (map (\<lambda>c. One (Lit c)) (fullName d @ '' '')) t \<longleftrightarrow> prefix (fullName d @ '' '') t"
    using match_lits[of "fullName d @ '' ''" "[]" t] by simp
  with False show ?thesis
    by (simp add: branch_pieces_def covers_def)
qed

section \<open>The grep token of a selection\<close>

lemma regex_source_grepToken: "regex_source (grepToken g) = Some (''^('' @ js_join ''|'' g @ '')'')"
  by (simp add: regex_source_def grepToken_def butlast_append)

lemma lex_group:
  "lex (''^('' @ js_join ''|'' (map nameExpr ds) @ '')'') =
   Some (TCaret # TOpen # join_bar (map branch_toks ds) @ [TClose])"
proof -
  have close: "lex '')'' = Some [TClose]"
    by (simp add: lex_Cons_plain tok_of_def backslash_def)
  have "lex (js_join ''|'' (map nameExpr ds) @ '')'') = Some (join_bar (map branch_toks ds) @ [TClose])"
    using lex_append[OF lex_join, of ds "'')''"] close by simp
  then show ?thesis
    by (simp add: lex_Cons_plain tok_of_def backslash_def)
qed

lemma those_map_Some: "those (map (\<lambda>x. Some (f x)) xs) = Some (map f xs)"
  by (induction xs) auto

lemma parse_grep_names:
  assumes "ds \<noteq> []"
  shows "parse_grep (grepToken (map nameExpr ds)) = Some (map branch_pieces ds)"
proof -
  have "parse_anchored_group (TCaret # TOpen # join_bar (map branch_toks ds) @ [TClose]) =
        those (map parse_branch (map branch_toks ds))"
    using assms by (simp add: parse_anchored_group_def split_join)
  also have "\<dots> = Some (map branch_pieces ds)"
    using those_map_Some[of branch_pieces ds] by (simp add: comp_def parse_branch_toks)
  finally show ?thesis
    using lex_group[of ds] by (simp add: parse_grep_def regex_source_grepToken)
qed

lemma grep_names:
  assumes "ds \<noteq> []"
  shows "grep_matches (grepToken (map nameExpr ds)) t = Some (\<exists>d\<in>set ds. covers d t)"
  by (simp add: grep_matches_def parse_grep_names[OF assms] list_ex_iff match_branch)

lemma foldl_selectItem_fst:
  "fst (foldl (selectItem r) (g, ps) items) = g @ map nameExpr (named items)"
proof (induction items arbitrary: g ps)
  case Nil
  then show ?case by (simp add: named_def)
next
  case (Cons x xs)
  obtain g' ps' where step: "selectItem r (g, ps) x = (g', ps')" by (cases "selectItem r (g, ps) x")
  have g': "g' = g @ map nameExpr (named [x])"
    using step by (auto simp: selectItem_def named_def split: option.splits if_splits)
  have "named (x # xs) = named [x] @ named xs" by (simp add: named_def)
  then show ?case using Cons[of g' ps'] step g' by simp
qed

lemma selection_fst: "fst (selection r items) = map nameExpr (named items)"
  by (simp add: selection_def foldl_selectItem_fst)

lemma grep_selection:
  assumes "named items \<noteq> []"
  shows "grep_matches (grepToken (fst (selection r items))) t = Some (\<exists>d\<in>set (named items). covers d t)"
  by (simp add: selection_fst grep_names[OF assms])

lemma named_member:
  "test \<in> set items \<Longrightarrow> idata test = Some d \<Longrightarrow> is_TestCase d \<or> is_TestSuite d \<Longrightarrow> d \<in> set (named items)"
  by (auto simp: named_def intro!: bexI[of _ test])

lemma filterArgs_grep:
  assumes "named items \<noteq> []"
  shows "filterArgs r items =
         [''--grep'', grepToken (fst (selection r items))] @
         concat (map (\<lambda>p. [''--run'', p]) (snd (selection r items)))"
proof -
  have "fst (selection r items) \<noteq> []" using assms by (simp add: selection_fst)
  then show ?thesis by (cases "selection r items") (auto simp: filterArgs_def)
qed

section \<open>The vector returned for a selection\<close>

lemma prepareArgs_Some:
  "getReporters (workspace r) = Inr rep \<Longrightarrow>
   prepareArgs r baseArgs (Some items) = Inr (commonArgs r baseArgs rep @ filterArgs r items)"
  by (simp add: prepareArgs_def)

lemma filterArgs_shape:
  "filterArgs r items =
     (if named items = [] then [] else [''--grep'', grepToken (fst (selection r items))]) @
     concat (map (\<lambda>p. [''--run'', p]) (snd (selection r items)))"
proof -
  have "fst (selection r items) = [] \<longleftrightarrow> named items = []" by (simp add: selection_fst)
  then show ?thesis by (cases "selection r items") (auto simp: filterArgs_def)
qed

section \<open>Escaping of selected names\<close>

text \<open>
  Claim C7. For every selected case or suite, whatever characters its full name holds,
  \<open>prepareArgs\<close> pushes an expression in which every character of the name reads as a
  literal (each regex-special character is escaped), followed by the end anchor for a
  case or a space for a suite, and returns a vector that holds the token built from the
  pushed expressions. The alternation of that token matches a test name exactly when
  a selected case has that full name or a selected suite's full name followed by a space
  begins it; for the item alone it matches the literal name and no other string, so not
  a string that only the unescaped pattern would accept.
\<close>

theorem escaped_name_matches_literally:
  assumes "test \<in> set items" and "idata test = Some d" and "is_TestCase d \<or> is_TestSuite d"
    and "getReporters (workspace r) = Inr rep"
  shows "prepareArgs r baseArgs (Some items) =
           Inr (commonArgs r baseArgs rep @
                [''--grep'', grepToken (fst (selection r items))] @
                concat (map (\<lambda>p. [''--run'', p]) (snd (selection r items)))) \<and>
         nameExpr d \<in> set (fst (selection r items)) \<and>
         lex (nameExpr d) =
           Some (map TChar (fullName d) @ [if is_TestCase d then TDollar else TChar CHR '' '']) \<and>
         (\<forall>t. grep_matches (grepToken (fst (selection r items))) t =
                Some (\<exists>e\<in>set (named items). covers e t)) \<and>
         prepareArgs r baseArgs (Some [test]) =
           Inr (commonArgs r baseArgs rep @
                [''--grep'', grepToken [nameExpr d]] @
                concat (map (\<lambda>p. [''--run'', p]) (snd (selection r [test])))) \<and>
         (\<forall>t. grep_matches (grepToken [nameExpr d]) t =
                Some (if is_TestCase d then t = fullName d else prefix (fullName d @ '' '') t))"
proof -
  have mem: "d \<in> set (named items)" using assms(1-3) by (rule named_member)
  then have ne: "named items \<noteq> []" by auto
  have single: "named [test] = [d]" using assms(2,3) by (auto simp: named_def)
  have one: "fst (selection r [test]) = [nameExpr d]" by (simp add: selection_fst single)
  have v: "prepareArgs r baseArgs (Some items) =
           Inr (commonArgs r baseArgs rep @
                [''--grep'', grepToken (fst (selection r items))] @
                concat (map (\<lambda>p. [''--run'', p]) (snd (selection r items))))"
    using prepareArgs_Some[OF assms(4), of baseArgs items] ne by (simp add: filterArgs_shape)
  have v1: "prepareArgs r baseArgs (Some [test]) =
           Inr (commonArgs r baseArgs rep @
                [''--grep'', grepToken [nameExpr d]] @
                concat (map (\<lambda>p. [''--run'', p]) (snd (selection r [test]))))"
    using prepareArgs_Some[OF assms(4), of baseArgs "[test]"] single
    by (simp add: filterArgs_shape one)
  have a: "nameExpr d \<in> set (fst (selection r items))" using mem by (simp add: selection_fst)
  have b: "lex (nameExpr d) =
           Some (map TChar (fullName d) @ [if is_TestCase d then TDollar else TChar CHR '' ''])"
    using lex_nameExpr[of d] by (simp add: branch_toks_def)
  have c: "\<forall>t. grep_matches (grepToken [nameExpr d]) t =
                Some (if is_TestCase d then t = fullName d else prefix (fullName d @ '' '') t)"
    using grep_selection[of "[test]" r] single by (simp add: covers_def one)
  show ?thesis
    using v v1 a b c grep_selection[OF ne, of r] by blast
qed

theorem escaped_name_matches_literally_witness:
  "metaCase \<in> set [fooSuite, metaCase] \<and>
   idata metaCase = Some (TestCase ''A.B*C'') \<and>
   getReporters (workspace exampleRunner) = Inr [] \<and>
   prepareArgs exampleRunner [] (Some [metaCase]) =
     Inr [''npm'', ''test'', ''--'', ''--no-watch'', ''--browsers=ChromeHeadless'',
          ''--grep'', grepToken [nameExpr (TestCase ''A.B*C'')], ''--run'', ''src/app.spec.ts''] \<and>
   grep_matches (grepToken [nameExpr (TestCase ''A.B*C'')]) ''A.B*C'' = Some True \<and>
   grep_matches (grepToken [nameExpr (TestCase ''A.B*C'')]) ''AxBBC'' = Some False \<and>
   grep_matches (grepToken [''A.B*C$'']) ''AxBBC'' = Some True \<and>
   prepareArgs exampleRunner [] (Some [fooSuite, metaCase]) =
     Inr [''npm'', ''test'', ''--'', ''--no-watch'', ''--browsers=ChromeHeadless'',
          ''--grep'', grepToken (fst (selection exampleRunner [fooSuite, metaCase])),
          ''--run'', ''src/app.spec.ts'']"
proof -
  have h1: "metaCase \<in> set [fooSuite, metaCase]" by simp
  have h2: "idata metaCase = Some (TestCase ''A.B*C'')" by (simp add: metaCase_def caseItem_def)
  have h3: "is_TestCase (TestCase ''A.B*C'') \<or> is_TestSuite (TestCase ''A.B*C'')" by simp
  have h4: "getReporters (workspace exampleRunner) = Inr []"
    by (simp add: getReporters_def configFiles_def exampleRunner_def emptyWorkspace_def)
  note T = escaped_name_matches_literally[OF h1 h2 h3 h4, of "[]"]
  have common: "commonArgs exampleRunner [] [] =
      [''npm'', ''test'', ''--'', ''--no-watch'', ''--browsers=ChromeHeadless'']"
    by code_simp
  from T have lit: "\<forall>t. grep_matches (grepToken [nameExpr (TestCase ''A.B*C'')]) t =
                Some (t = ''A.B*C'')" by simp
  have paths: "snd (selection exampleRunner [fooSuite, metaCase]) = [''src/app.spec.ts'']"
    by code_simp
  have path1: "snd (selection exampleRunner [metaCase]) = [''src/app.spec.ts'']"
    by code_simp
  from T common path1 have args1: "prepareArgs exampleRunner [] (Some [metaCase]) =
     Inr [''npm'', ''test'', ''--'', ''--no-watch'', ''--browsers=ChromeHeadless'',
          ''--grep'', grepToken [nameExpr (TestCase ''A.B*C'')], ''--run'', ''src/app.spec.ts'']"
    by simp
  from T common paths have args: "prepareArgs exampleRunner [] (Some [fooSuite, metaCase]) =
     Inr [''npm'', ''test'', ''--'', ''--no-watch'', ''--browsers=ChromeHeadless'',
          ''--grep'', grepToken (fst (selection exampleRunner [fooSuite, metaCase])),
          ''--run'', ''src/app.spec.ts'']"
    by simp
  have unescaped: "grep_matches (grepToken [''A.B*C$'']) ''AxBBC'' = Some True" by code_simp
  show ?thesis using h1 h2 h4 lit args1 args unescaped by simp
qed

section \<open>Suites whose names are prefixes of one another\<close>

text \<open>
  Claim C1. For every selection that contains a suite named \<open>Foo\<close>, the vector that
  \<open>prepareArgs\<close> returns holds the grep token of the selection, and the alternation of
  that token matches every test name beginning with \<open>Foo\<close> and a space. A test name
  beginning with \<open>FooBar\<close> and a space is matched exactly when a selected item other than
  \<open>Foo\<close> covers it: the expression of \<open>Foo\<close> never matches it. So when the sibling
  \<open>FooBar\<close> merely exists, that is, when no selected item covers the name, the
  alternation does not match it.
\<close>

theorem suite_prefix_non_interference:
  assumes "test \<in> set items" and "idata test = Some (TestSuite ''Foo'')"
    and "getReporters (workspace r) = Inr rep"
  shows "prepareArgs r baseArgs (Some items) =
           Inr (commonArgs r baseArgs rep @
                [''--grep'', grepToken (fst (selection r items))] @
                concat (map (\<lambda>p. [''--run'', p]) (snd (selection r items)))) \<and>
         (\<forall>t. prefix ''Foo '' t \<longrightarrow>
                grep_matches (grepToken (fst (selection r items))) t = Some True) \<and>
         (\<forall>t. prefix ''FooBar '' t \<longrightarrow>
                grep_matches (grepToken (fst (selection r items))) t =
                  Some (\<exists>e\<in>set (named items). e \<noteq> TestSuite ''Foo'' \<and> covers e t)) \<and>
         (\<forall>t. prefix ''FooBar '' t \<and>
                (\<forall>e\<in>set (named items). e \<noteq> TestSuite ''Foo'' \<longrightarrow> \<not> covers e t) \<longrightarrow>
                grep_matches (grepToken (fst (selection r items))) t = Some False)"
proof -
  have mem: "TestSuite ''Foo'' \<in> set (named items)"
    using assms(1,2) by (auto intro: named_member)
  then have ne: "named items \<noteq> []" by auto
  have v: "prepareArgs r baseArgs (Some items) =
           Inr (commonArgs r baseArgs rep @
                [''--grep'', grepToken (fst (selection r items))] @
                concat (map (\<lambda>p. [''--run'', p]) (snd (selection r items))))"
    using prepareArgs_Some[OF assms(3), of baseArgs items] ne by (simp add: filterArgs_shape)
  have foo: "covers (TestSuite ''Foo'') t \<longleftrightarrow> prefix ''Foo '' t" for t
    by (simp add: covers_def)
  have nofoo: "\<not> prefix ''Foo '' t" if "prefix ''FooBar '' t" for t
    using that by (auto simp: prefix_def)
  have m: "grep_matches (grepToken (fst (selection r items))) t =
           Some (\<exists>e\<in>set (named items). covers e t)" for t
    by (rule grep_selection[OF ne])
  have yes: "grep_matches (grepToken (fst (selection r items))) t = Some True"
    if "prefix ''Foo '' t" for t
    using m[of t] mem foo[of t] that by auto
  have other: "grep_matches (grepToken (fst (selection r items))) t =
                  Some (\<exists>e\<in>set (named items). e \<noteq> TestSuite ''Foo'' \<and> covers e t)"
    if "prefix ''FooBar '' t" for t
  proof -
    have "\<not> covers (TestSuite ''Foo'') t" using foo[of t] nofoo[OF that] by simp
    then have "(\<exists>e\<in>set (named items). covers e t) \<longleftrightarrow>
               (\<exists>e\<in>set (named items). e \<noteq> TestSuite ''Foo'' \<and> covers e t)"
      by metis
    then show ?thesis using m[of t] by simp
  qed
  have none: "grep_matches (grepToken (fst (selection r items))) t = Some False"
    if "prefix ''FooBar '' t"
      and "\<forall>e\<in>set (named items). e \<noteq> TestSuite ''Foo'' \<longrightarrow> \<not> covers e t" for t
    using other[OF that(1)] that(2) by auto
  show ?thesis
    using v yes other none by blast
qed

theorem suite_prefix_non_interference_witness:
  "fooSuite \<in> set [fooSuite, otherFile] \<and>
   idata fooSuite = Some (TestSuite ''Foo'') \<and>
   getReporters (workspace exampleRunner) = Inr [] \<and>
   prepareArgs exampleRunner [] (Some [fooSuite, otherFile]) =
     Inr [''npm'', ''test'', ''--'', ''--no-watch'', ''--browsers=ChromeHeadless'',
          ''--grep'', ''/^(Foo )/'', ''--run'', ''src/app.spec.ts'',
          ''--run'', ''src/util.spec.ts''] \<and>
   prefix ''Foo '' ''Foo works'' \<and>
   grep_matches ''/^(Foo )/'' ''Foo works'' = Some True \<and>
   prefix ''FooBar '' ''FooBar works'' \<and>
   grep_matches ''/^(Foo )/'' ''FooBar works'' = Some False"
proof -
  have h1: "fooSuite \<in> set [fooSuite, otherFile]" by simp
  have h2: "idata fooSuite = Some (TestSuite ''Foo'')" by (simp add: fooSuite_def suiteItem_def)
  have h3: "getReporters (workspace exampleRunner) = Inr []"
    by (simp add: getReporters_def configFiles_def exampleRunner_def emptyWorkspace_def)
  note T = suite_prefix_non_interference[OF h1 h2 h3, of "[]"]
  have p1: "prefix ''Foo '' ''Foo works''" by simp
  have p2: "prefix ''FooBar '' ''FooBar works''" by simp
  have only: "named [fooSuite, otherFile] = [TestSuite ''Foo'']"
    by (simp add: named_def h2 otherFile_def fileItem_def)
  have tok: "grepToken (fst (selection exampleRunner [fooSuite, otherFile])) = ''/^(Foo )/''"
    by code_simp
  have common: "commonArgs exampleRunner [] [] =
      [''npm'', ''test'', ''--'', ''--no-watch'', ''--browsers=ChromeHeadless'']"
    by code_simp
  have paths: "snd (selection exampleRunner [fooSuite, otherFile]) =
      [''src/app.spec.ts'', ''src/util.spec.ts'']"
    by code_simp
  from T common paths have v: "prepareArgs exampleRunner [] (Some [fooSuite, otherFile]) =
     Inr [''npm'', ''test'', ''--'', ''--no-watch'', ''--browsers=ChromeHeadless'',
          ''--grep'', ''/^(Foo )/'', ''--run'', ''src/app.spec.ts'',
          ''--run'', ''src/util.spec.ts'']"
    by (simp add: tok)
  from T p1 have a: "grep_matches ''/^(Foo )/'' ''Foo works'' = Some True"
    unfolding tok by blast
  have nocover: "\<forall>e\<in>set (named [fooSuite, otherFile]).
                   e \<noteq> TestSuite ''Foo'' \<longrightarrow> \<not> covers e ''FooBar works''"
    by (simp add: only)
  from T p2 nocover have b: "grep_matches ''/^(Foo )/'' ''FooBar works'' = Some False"
    unfolding tok by blast
  show ?thesis using h1 h2 h3 v p1 p2 a b by simp
qed

section \<open>The run paths of a selection\<close>

lemma set_add_distinct: "distinct xs \<Longrightarrow> distinct (set_add x xs)"
  by (simp add: set_add_def)

lemma set_set_add: "set (set_add x xs) = insert x (set xs)"
  by (auto simp: set_add_def)

lemma add_all_distinct: "distinct acc \<Longrightarrow> distinct (add_all acc xs)"
  unfolding add_all_def by (induction xs arbitrary: acc) (simp_all add: set_add_distinct)

lemma set_add_all: "set (add_all acc xs) = set acc \<union> set xs"
  unfolding add_all_def by (induction xs arbitrary: acc) (auto simp: set_set_add)

lemma add_all_append: "add_all acc (xs @ ys) = add_all (add_all acc xs) ys"
  by (simp add: add_all_def)

lemma addParentPaths_add_all:
  "addParentPaths r ps acc =
   add_all acc (concat (map (\<lambda>p. case idata p of
                         None \<Rightarrow> []
                       | Some d \<Rightarrow> if is_TestFile d then [runPathOf r d] else []) ps))"
proof (induction ps arbitrary: acc)
  case Nil
  then show ?case by (simp add: add_all_def)
next
  case (Cons p ps)
  show ?case
    by (cases "idata p") (simp_all add: Cons add_all_def)
qed

lemma selectItem_snd:
  "snd (selectItem r (g, ps) test) = add_all ps (itemPaths r test)"
  by (cases "idata test")
     (simp_all add: selectItem_def itemPaths_def ancestorPaths_def addParentPaths_add_all add_all_def)

lemma foldl_selectItem_snd:
  "snd (foldl (selectItem r) (g, ps) items) = add_all ps (concat (map (itemPaths r) items))"
proof (induction items arbitrary: g ps)
  case Nil
  then show ?case by (simp add: add_all_def)
next
  case (Cons x xs)
  obtain g' ps' where step: "selectItem r (g, ps) x = (g', ps')" by (cases "selectItem r (g, ps) x")
  then have "ps' = add_all ps (itemPaths r x)" using selectItem_snd[of r g ps x] by simp
  then show ?case using Cons[of g' ps'] step by (simp add: add_all_append)
qed

lemma selection_snd: "snd (selection r items) = add_all [] (concat (map (itemPaths r) items))"
  by (simp add: selection_def foldl_selectItem_snd)

lemma runPaths_distinct: "distinct (snd (selection r items))"
  by (simp add: selection_snd add_all_distinct)

lemma runPaths_set: "set (snd (selection r items)) = (\<Union>t\<in>set items. set (itemPaths r t))"
  by (simp add: selection_snd set_add_all)

lemma distinct_singleton:
  assumes "distinct xs" and "set xs = {p}"
  shows "xs = [p]"
proof (cases xs)
  case Nil
  with assms show ?thesis by simp
next
  case (Cons a ys)
  with assms have a: "a = p" by auto
  have "set ys \<subseteq> {p}" using assms Cons by auto
  moreover have "p \<notin> set ys" using assms Cons a by simp
  ultimately have "ys = []" by (cases ys) auto
  with Cons a show ?thesis by simp
qed

section \<open>One run pair per file\<close>

text \<open>
  Claim C8. When every selected item is a test case whose file ancestors all have the run
  path \<open>p\<close>, however many such cases are selected, \<open>prepareArgs\<close> ends its vector
  with the grep pair and exactly one pair \<^verbatim>\<open>--run p\<close>; and for every selection the run
  paths hold no duplicate.
\<close>

theorem same_file_single_run_pair:
  assumes "items \<noteq> []"
    and "\<forall>test\<in>set items. (\<exists>n. idata test = Some (TestCase n)) \<and> set (ancestorPaths r test) = {p}"
    and "getReporters (workspace r) = Inr rep"
  shows "prepareArgs r baseArgs (Some items) =
           Inr (commonArgs r baseArgs rep @
                [''--grep'', grepToken (fst (selection r items)), ''--run'', p]) \<and>
         snd (selection r items) = [p] \<and>
         (\<forall>sel. distinct (snd (selection r sel)))"
proof -
  have each: "set (itemPaths r test) = {p}" if "test \<in> set items" for test
  proof -
    from assms(2) that obtain n where "idata test = Some (TestCase n)"
      and "set (ancestorPaths r test) = {p}" by blast
    then show ?thesis by (simp add: itemPaths_def)
  qed
  obtain x where x: "x \<in> set items" using assms(1) by (cases items) auto
  have "set (snd (selection r items)) = {p}"
    using each x by (auto simp: runPaths_set)
  then have one: "snd (selection r items) = [p]"
    using runPaths_distinct by (rule distinct_singleton[rotated])
  have "named items \<noteq> []"
    using assms(2) x named_member[of x items] by fastforce
  then have "filterArgs r items = [''--grep'', grepToken (fst (selection r items)), ''--run'', p]"
    by (simp add: filterArgs_shape one)
  then show ?thesis
    using prepareArgs_Some[OF assms(3), of baseArgs items] one runPaths_distinct by simp
qed

theorem same_file_single_run_pair_witness:
  "length threeCases = 3 \<and>
   map idata threeCases = [Some (TestCase ''a''), Some (TestCase ''b''), Some (TestCase ''S c'')] \<and>
   map (ancestorPaths exampleRunner) threeCases =
     [[''src/app.spec.ts''], [''src/app.spec.ts''], [''src/app.spec.ts'']] \<and>
   getReporters (workspace exampleRunner) = Inr [] \<and>
   prepareArgs exampleRunner [] (Some threeCases) =
     Inr [''npm'', ''test'', ''--'', ''--no-watch'', ''--browsers=ChromeHeadless'',
          ''--grep'', ''/^(a$|b$|S c$)/'', ''--run'', ''src/app.spec.ts'']"
proof -
  have h1: "threeCases \<noteq> []" by (simp add: threeCases_def)
  have h2: "\<forall>test\<in>set threeCases. (\<exists>n. idata test = Some (TestCase n)) \<and>
      set (ancestorPaths exampleRunner test) = {''src/app.spec.ts''}"
    by (simp add: threeCases_def caseItem_def suiteItem_def specFile_def fileItem_def
        ancestorPaths_def runPathOf_def exampleRunner_def relativeBelow_def
        normalize_slashes_def backslash_def)
  have h3: "getReporters (workspace exampleRunner) = Inr []"
    by (simp add: getReporters_def configFiles_def exampleRunner_def emptyWorkspace_def)
  note T = same_file_single_run_pair[OF h1 h2 h3, of "[]"]
  have common: "commonArgs exampleRunner [] [] =
      [''npm'', ''test'', ''--'', ''--no-watch'', ''--browsers=ChromeHeadless'']"
    by code_simp
  have tok: "grepToken (fst (selection exampleRunner threeCases)) = ''/^(a$|b$|S c$)/''"
    by code_simp
  from T common tok have "prepareArgs exampleRunner [] (Some threeCases) =
     Inr [''npm'', ''test'', ''--'', ''--no-watch'', ''--browsers=ChromeHeadless'',
          ''--grep'', ''/^(a$|b$|S c$)/'', ''--run'', ''src/app.spec.ts'']"
    by simp
  moreover have "length threeCases = 3" by (simp add: threeCases_def)
  moreover have "map idata threeCases =
      [Some (TestCase ''a''), Some (TestCase ''b''), Some (TestCase ''S c'')]"
    by (simp add: threeCases_def caseItem_def)
  moreover have "map (ancestorPaths exampleRunner) threeCases =
     [[''src/app.spec.ts''], [''src/app.spec.ts''], [''src/app.spec.ts'']]"
    by code_simp
  ultimately show ?thesis using h3 by blast
qed

section \<open>The shape of the argument vector\<close>

lemma set_truthy: "set (truthy xs) = {s. Some s \<in> set xs \<and> s \<noteq> []}"
  by (induction xs) (auto simp: truthy_def split: option.splits)

lemma getConfigName_form:
  "getConfigName ws = [] \<or> prefix ''--karma-config='' (getConfigName ws)"
  by (simp add: getConfigName_def split: list.splits)

lemma reporters_of_form:
  "reporters_of content = Inr rep \<Longrightarrow> rep = [] \<or> prefix ''--reporters='' rep"
  by (auto simp: reporters_of_def Let_def split: if_splits list.splits)

lemma getReporters_form:
  "getReporters ws = Inr rep \<Longrightarrow> rep = [] \<or> prefix ''--reporters='' rep"
  by (auto simp: getReporters_def dest: reporters_of_form split: list.splits option.splits if_splits)

lemma commonArgs_set:
  "set (commonArgs r baseArgs rep) \<subseteq>
     set baseArgs \<union> {getConfigName (workspace r), rep} \<union>
     {''npm'', ''test'', ''--'', ''--watch'', ''--no-watch'', ''--browsers=ChromeHeadless'',
      ''--code-coverage''}"
  unfolding commonArgs_def getDefaultArgs_def set_truthy by auto

lemma commonArgs_no_empty: "[] \<notin> set (commonArgs r baseArgs rep)"
  unfolding commonArgs_def set_truthy by simp

lemma commonArgs_no_filter_flag:
  assumes "getReporters (workspace r) = Inr rep" and "flag \<notin> set baseArgs"
    and "flag = ''--grep'' \<or> flag = ''--run''"
  shows "flag \<notin> set (commonArgs r baseArgs rep)"
proof -
  have a: "getConfigName (workspace r) \<noteq> flag"
    using getConfigName_form[of "workspace r"] assms(3) by (auto simp: prefix_def)
  have b: "rep \<noteq> flag"
    using getReporters_form[OF assms(1)] assms(3) by (auto simp: prefix_def)
  show ?thesis
    using commonArgs_set[of r baseArgs rep] a b assms(2,3) by auto
qed

lemma count_run_pairs:
  "''--run'' \<notin> set paths \<Longrightarrow>
   count_list (concat (map (\<lambda>p. [''--run'', p]) paths)) ''--run'' = length paths"
  by (induction paths) auto

lemma count_grep_pairs:
  "''--grep'' \<notin> set paths \<Longrightarrow>
   count_list (concat (map (\<lambda>p. [''--run'', p]) paths)) ''--grep'' = 0"
  by (induction paths) auto

lemma set_run_pairs:
  "set (concat (map (\<lambda>p. [''--run'', p]) paths)) \<subseteq> insert ''--run'' (set paths)"
  by (induction paths) auto

text \<open>
  Claim C2 says that \<^verbatim>\<open>--run\<close> appears at most once in every vector, also for a
  selection that spans several files. The loop appends one pair per distinct run path, so
  a selection of two files yields two \<^verbatim>\<open>--run\<close> flags.
\<close>

theorem argument_vector_counterexample:
  "prepareArgs exampleRunner [] (Some [specFile, otherFile]) =
     Inr [''npm'', ''test'', ''--'', ''--no-watch'', ''--browsers=ChromeHeadless'',
          ''--run'', ''src/app.spec.ts'', ''--run'', ''src/util.spec.ts''] \<and>
   count_list [''npm'', ''test'', ''--'', ''--no-watch'', ''--browsers=ChromeHeadless'',
          ''--run'', ''src/app.spec.ts'', ''--run'', ''src/util.spec.ts''] ''--run'' = 2"
  by code_simp


text \<open>
  Claim C2, amended. For every argument vector that \<open>prepareArgs\<close> returns, when the
  caller's base arguments hold no filter flag and no run path is empty or spelled like a
  filter flag: the vector has no empty element, \<^verbatim>\<open>--grep\<close> appears at most once,
  \<^verbatim>\<open>--run\<close> appears once for each distinct run path (so as often as there are selected
  files), the run paths are free of duplicates, and the run pairs close the vector in the
  order in which the paths were first added.
\<close>

theorem argument_vector_shape:
  assumes "prepareArgs r baseArgs filt = Inr args"
    and "''--grep'' \<notin> set baseArgs" and "''--run'' \<notin> set baseArgs"
    and "paths = (case filt of None \<Rightarrow> [] | Some items \<Rightarrow> snd (selection r items))"
    and "\<forall>p\<in>set paths. p \<noteq> [] \<and> p \<noteq> ''--grep'' \<and> p \<noteq> ''--run''"
  shows "[] \<notin> set args \<and>
         count_list args ''--grep'' \<le> 1 \<and>
         count_list args ''--run'' = length paths \<and>
         distinct paths \<and>
         (\<exists>pre. args = pre @ concat (map (\<lambda>p. [''--run'', p]) paths) \<and> ''--run'' \<notin> set pre)"
proof -
  obtain rep where rep: "getReporters (workspace r) = Inr rep"
    using assms(1) by (auto simp: prepareArgs_def split: sum.splits)
  define common where "common = commonArgs r baseArgs rep"
  define grepPart where "grepPart =
    (case filt of None \<Rightarrow> []
     | Some items \<Rightarrow> if named items = [] then []
                     else [''--grep'', grepToken (fst (selection r items))])"
  define runPart where "runPart = concat (map (\<lambda>p. [''--run'', p]) paths)"
  have args: "args = common @ grepPart @ runPart"
    using assms(1,4) rep
    by (cases filt) (auto simp: prepareArgs_def filterArgs_shape common_def grepPart_def runPart_def)
  have c1: "[] \<notin> set common" unfolding common_def by (rule commonArgs_no_empty)
  have c2: "''--grep'' \<notin> set common"
    unfolding common_def using rep assms(2) by (rule commonArgs_no_filter_flag) simp
  have c3: "''--run'' \<notin> set common"
    unfolding common_def using rep assms(3) by (rule commonArgs_no_filter_flag) simp
  have g1: "[] \<notin> set grepPart" and g2: "count_list grepPart ''--grep'' \<le> 1"
    and g3: "''--run'' \<notin> set grepPart"
    by (auto simp: grepPart_def grepToken_def split: option.splits)
  have p1: "[] \<notin> set runPart"
    using assms(5) set_run_pairs[of paths] unfolding runPart_def by auto
  have p2: "count_list runPart ''--grep'' = 0"
    unfolding runPart_def using assms(5) by (intro count_grep_pairs) auto
  have p3: "count_list runPart ''--run'' = length paths"
    unfolding runPart_def using assms(5) by (intro count_run_pairs) auto
  have d: "distinct paths"
    using assms(4) runPaths_distinct by (cases filt) auto
  have e: "\<exists>pre. args = pre @ runPart \<and> ''--run'' \<notin> set pre"
    using args c3 g3 by (intro exI[of _ "common @ grepPart"]) simp
  have "[] \<notin> set args" using args c1 g1 p1 by simp
  moreover have "count_list args ''--grep'' \<le> 1" using args c2 g2 p2 by simp
  moreover have "count_list args ''--run'' = length paths" using args c3 g3 p3 by simp
  ultimately show ?thesis using d e unfolding runPart_def by blast
qed

theorem argument_vector_shape_witness:
  "prepareArgs exampleRunner [] (Some [fooSuite, specFile, otherFile]) =
     Inr [''npm'', ''test'', ''--'', ''--no-watch'', ''--browsers=ChromeHeadless'',
          ''--grep'', ''/^(Foo )/'', ''--run'', ''src/app.spec.ts'',
          ''--run'', ''src/util.spec.ts''] \<and>
   snd (selection exampleRunner [fooSuite, specFile, otherFile]) =
     [''src/app.spec.ts'', ''src/util.spec.ts''] \<and>
   count_list [''npm'', ''test'', ''--'', ''--no-watch'', ''--browsers=ChromeHeadless'',
          ''--grep'', ''/^(Foo )/'', ''--run'', ''src/app.spec.ts'',
          ''--run'', ''src/util.spec.ts''] ''--grep'' \<le> 1 \<and>
   count_list [''npm'', ''test'', ''--'', ''--no-watch'', ''--browsers=ChromeHeadless'',
          ''--grep'', ''/^(Foo )/'', ''--run'', ''src/app.spec.ts'',
          ''--run'', ''src/util.spec.ts''] ''--run'' = 2"
proof -
  have h1: "prepareArgs exampleRunner [] (Some [fooSuite, specFile, otherFile]) =
     Inr [''npm'', ''test'', ''--'', ''--no-watch'', ''--browsers=ChromeHeadless'',
          ''--grep'', ''/^(Foo )/'', ''--run'', ''src/app.spec.ts'',
          ''--run'', ''src/util.spec.ts'']"
    by code_simp
  have h2: "''--grep'' \<notin> set ([] :: string list)" by simp
  have h3: "''--run'' \<notin> set ([] :: string list)" by simp
  have sel: "snd (selection exampleRunner [fooSuite, specFile, otherFile]) =
     [''src/app.spec.ts'', ''src/util.spec.ts'']"
    by code_simp
  have h4: "[''src/app.spec.ts'', ''src/util.spec.ts''] =
     (case Some [fooSuite, specFile, otherFile] of None \<Rightarrow> []
      | Some items \<Rightarrow> snd (selection exampleRunner items))"
    by (simp add: sel)
  have h5: "\<forall>p\<in>set [''src/app.spec.ts'', ''src/util.spec.ts''].
              p \<noteq> [] \<and> p \<noteq> ''--grep'' \<and> p \<noteq> ''--run''"
    by simp
  note T = argument_vector_shape[OF h1 h2 h3 h4 h5]
  from T have "count_list [''npm'', ''test'', ''--'', ''--no-watch'', ''--browsers=ChromeHeadless'',
          ''--grep'', ''/^(Foo )/'', ''--run'', ''src/app.spec.ts'',
          ''--run'', ''src/util.spec.ts''] ''--grep'' \<le> 1"
    by blast
  moreover from T have "count_list [''npm'', ''test'', ''--'', ''--no-watch'', ''--browsers=ChromeHeadless'',
          ''--grep'', ''/^(Foo )/'', ''--run'', ''src/app.spec.ts'',
          ''--run'', ''src/util.spec.ts''] ''--run'' =
          length [''src/app.spec.ts'', ''src/util.spec.ts'']"
    by blast
  ultimately show ?thesis using h1 sel by simp
qed

section \<open>Reading the reporters\<close>

text \<open>
  Claim C9 says that \<open>getReporters\<close> never throws. On a configuration file whose
  \<^verbatim>\<open>reporters: \<close> is not followed by an opening bracket, \<^verbatim>\<open>arrString.split('[')[1]\<close>
  is \<^verbatim>\<open>undefined\<close> and the next call throws; the error leaves \<open>prepareArgs\<close> too.
\<close>

theorem getReporters_throws_on_malformed:
  "configFiles malformedWorkspace = [''/w/karma.conf.js''] \<and>
   readFile malformedWorkspace ''/w/karma.conf.js'' =
     Some ''module.exports = { reporters: 'progress' }'' \<and>
   getReporters malformedWorkspace = Inl (TypeError ''Cannot read properties of undefined'') \<and>
   prepareArgs (exampleRunner\<lparr>workspace := malformedWorkspace\<rparr>) [] None =
     Inl (TypeError ''Cannot read properties of undefined'')"
  by code_simp


section \<open>The debounce of the continuous run handler\<close>

lemma timer_idle: "timers s = [] \<Longrightarrow> sched_step g req s (TimerFires h) = s"
  by (simp add: sched_step_def)

lemma timers_idle_run:
  "timers s = [] \<Longrightarrow> \<forall>e\<in>set evs. \<exists>h. e = TimerFires h \<Longrightarrow> sched_run g req s evs = s"
  unfolding sched_run_def by (induction evs) (auto simp: timer_idle)


lemma sched_run_Cons: "sched_run g req s (e # evs) = sched_run g req (sched_step g req s e) evs"
  by (simp add: sched_run_def)

lemma one_timer_clear: "one_timer s \<Longrightarrow> clearTimeout s = s\<lparr>timers := []\<rparr>"
  by (auto simp: one_timer_def clearTimeout_def split: option.splits)

lemma one_timer_onFileChanged: "one_timer s \<Longrightarrow> one_timer (onFileChanged req s e)"
  by (simp add: one_timer_clear onFileChanged_def setTimeout_def one_timer_def Let_def)

lemma one_timer_step: "one_timer s \<Longrightarrow> one_timer (sched_step g req s e)"
proof (cases e)
  case (FileChanged c)
  assume "one_timer s"
  then show ?thesis
    using FileChanged by (simp add: sched_step_def one_timer_onFileChanged)
next
  case (TimerFires h)
  assume "one_timer s"
  then show ?thesis
    using TimerFires by (auto simp: one_timer_def sched_step_def onTimeout_def Let_def)
next
  case CancellationRequested
  assume "one_timer s"
  then show ?thesis
    using CancellationRequested
    by (simp add: one_timer_clear one_timer_def sched_step_def onCancellationRequested_def)
qed

lemma one_timer_run: "one_timer s \<Longrightarrow> one_timer (sched_run g req s evs)"
  by (induction evs arbitrary: s) (simp_all add: sched_run_def one_timer_step)

lemma one_timer_new: "one_timer newScheduler"
  by (simp add: one_timer_def newScheduler_def)

text \<open>What a qualifying notification does to a listening handler.\<close>

lemma qualifying_step:
  assumes "listening s" and "one_timer s" and "\<not> notIncluded req u"
  shows "sched_step g req s (FileChanged (FileChangeEvent u rm)) =
           s\<lparr>queuedFiles := (if rm then removeAll u (queuedFiles s) else set_add u (queuedFiles s)),
             debounced := Some (nextTimer s), timers := [nextTimer s],
             nextTimer := Suc (nextTimer s)\<rparr>"
proof -
  have eq: "clearTimeout s = s\<lparr>timers := []\<rparr>"
    using assms(2) by (rule one_timer_clear)
  show ?thesis
    using assms(1,3) by (simp add: sched_step_def onFileChanged_def setTimeout_def Let_def eq)
qed

text \<open>
  Claim C3. Take a handler in any state it can reach, still listening and with an empty
  pending set. When it receives, with no timer expiring in between, the qualifying
  notifications for a change of \<open>A\<close>, a change of \<open>B\<close> and the removal of \<open>A\<close> (for
  distinct \<open>A\<close> and \<open>B\<close>), it holds exactly one armed timer and the pending set
  \<open>{B}\<close>, and has issued no run. When that timer fires, one run request is issued, whose
  include list is computed from \<open>B\<close> alone (the requested items of file \<open>B\<close>, or the
  file item of \<open>B\<close>), the pending set is cleared, and no timer remains that could issue
  another run.
\<close>

theorem debounce_coalesces_window:
  assumes "A \<noteq> B" and "\<not> notIncluded req A" and "\<not> notIncluded req B"
    and "s0 = sched_run g req newScheduler before"
    and "listening s0" and "queuedFiles s0 = []"
    and "s = sched_run g req s0
               [FileChanged (FileChangeEvent A False), FileChanged (FileChangeEvent B False),
                FileChanged (FileChangeEvent A True)]"
    and "s' = sched_step g req s (TimerFires (nextTimer s0 + 2))"
  shows "timers s = [nextTimer s0 + 2] \<and> queuedFiles s = [B] \<and> runs s = runs s0 \<and>
         runs s' = runs s0 @
           [\<lparr>req_include =
                Some (case req_include req of
                        Some inc \<Rightarrow> filter (\<lambda>t. uri t = Some B) inc
                      | None \<Rightarrow> (case g B of None \<Rightarrow> [] | Some i \<Rightarrow> [i])),
             req_exclude = req_exclude req, req_profile = req_profile req,
             req_continuous = True\<rparr>] \<and>
         queuedFiles s' = [] \<and> timers s' = [] \<and>
         (\<forall>evs. (\<forall>e\<in>set evs. \<exists>h. e = TimerFires h) \<longrightarrow> sched_run g req s' evs = s')"
proof -
  define n where "n = nextTimer s0"
  have inv0: "one_timer s0"
    unfolding assms(4) using one_timer_new by (rule one_timer_run)
  define s1 where "s1 = sched_step g req s0 (FileChanged (FileChangeEvent A False))"
  define s2 where "s2 = sched_step g req s1 (FileChanged (FileChangeEvent B False))"
  have s1: "s1 = s0\<lparr>queuedFiles := [A], debounced := Some n, timers := [n], nextTimer := Suc n\<rparr>"
    unfolding s1_def using qualifying_step[OF assms(5) inv0 assms(2), of g False] assms(6)
    by (simp add: set_add_def n_def)
  have inv1: "one_timer s1" unfolding s1_def using inv0 by (rule one_timer_step)
  have l1: "listening s1" using assms(5) by (simp add: s1)
  have s2: "s2 = s0\<lparr>queuedFiles := [A, B], debounced := Some (Suc n), timers := [Suc n],
                     nextTimer := Suc (Suc n)\<rparr>"
    unfolding s2_def using qualifying_step[OF l1 inv1 assms(3), of g False] assms(1)
    by (simp add: s1 set_add_def)
  have inv2: "one_timer s2" unfolding s2_def using inv1 by (rule one_timer_step)
  have l2: "listening s2" using assms(5) by (simp add: s2)
  have "s = sched_step g req s2 (FileChanged (FileChangeEvent A True))"
    by (simp add: assms(7) sched_run_def s2_def s1_def)
  then have s: "s = s0\<lparr>queuedFiles := [B], debounced := Some (n + 2), timers := [n + 2],
                        nextTimer := n + 3\<rparr>"
    using qualifying_step[OF l2 inv2 assms(2), of g True] assms(1)
    by (simp add: s2 numeral_3_eq_3)
  have inc: "newInclude g req [B] =
        (case req_include req of
           Some inc \<Rightarrow> filter (\<lambda>t. uri t = Some B) inc
         | None \<Rightarrow> (case g B of None \<Rightarrow> [] | Some i \<Rightarrow> [i]))"
  proof (cases "req_include req")
    case None
    then show ?thesis by (simp add: newInclude_def)
  next
    case (Some inc)
    have "(case uri t of None \<Rightarrow> False | Some u \<Rightarrow> u \<in> set [B]) = (uri t = Some B)" for t
      by (cases "uri t") auto
    then show ?thesis using Some by (simp add: newInclude_def)
  qed
  have s': "s' = s0\<lparr>queuedFiles := [], debounced := Some (n + 2), timers := [],
                     nextTimer := n + 3,
                     runs := runs s0 @
                       [\<lparr>req_include = Some (newInclude g req [B]),
                         req_exclude = req_exclude req, req_profile = req_profile req,
                         req_continuous = True\<rparr>]\<rparr>"
    using assms(8) by (simp add: s sched_step_def onTimeout_def Let_def n_def)
  have idle: "\<forall>evs. (\<forall>e\<in>set evs. \<exists>h. e = TimerFires h) \<longrightarrow> sched_run g req s' evs = s'"
    using timers_idle_run[of s'] by (simp add: s')
  show ?thesis
    using idle by (simp add: s s' inc n_def)
qed

theorem debounce_coalesces_window_witness:
  "uriA \<noteq> uriB \<and> \<not> notIncluded watchAB uriA \<and> \<not> notIncluded watchAB uriB \<and>
   listening (sched_run fileOf watchAB newScheduler
                [FileChanged (FileChangeEvent uriA False), TimerFires 0]) \<and>
   queuedFiles (sched_run fileOf watchAB newScheduler
                [FileChanged (FileChangeEvent uriA False), TimerFires 0]) = [] \<and>
   nextTimer (sched_run fileOf watchAB newScheduler
                [FileChanged (FileChangeEvent uriA False), TimerFires 0]) = 1 \<and>
   runs (sched_run fileOf watchAB newScheduler
           [FileChanged (FileChangeEvent uriA False), TimerFires 0,
            FileChanged (FileChangeEvent uriA False), FileChanged (FileChangeEvent uriB False),
            FileChanged (FileChangeEvent uriA True), TimerFires 3]) =
     [\<lparr>req_include = Some [fileA], req_exclude = None, req_profile = None,
       req_continuous = True\<rparr>,
      \<lparr>req_include = Some [fileB], req_exclude = None, req_profile = None,
       req_continuous = True\<rparr>] \<and>
   queuedFiles (sched_run fileOf watchAB newScheduler
           [FileChanged (FileChangeEvent uriA False), TimerFires 0,
            FileChanged (FileChangeEvent uriA False), FileChanged (FileChangeEvent uriB False),
            FileChanged (FileChangeEvent uriA True), TimerFires 3]) = []"
proof -
  let ?before = "[FileChanged (FileChangeEvent uriA False), TimerFires 0]"
  let ?s0 = "sched_run fileOf watchAB newScheduler ?before"
  let ?window = "[FileChanged (FileChangeEvent uriA False), FileChanged (FileChangeEvent uriB False),
                  FileChanged (FileChangeEvent uriA True)]"
  have h1: "uriA \<noteq> uriB" by (simp add: uriA_def uriB_def)
  have h2: "\<not> notIncluded watchAB uriA"
    by (simp add: notIncluded_def watchAB_def fileA_def fileB_def fileItem_def uriA_def)
  have h3: "\<not> notIncluded watchAB uriB"
    by (simp add: notIncluded_def watchAB_def fileA_def fileB_def fileItem_def uriB_def)
  have h5: "listening ?s0" by code_simp
  have h6: "queuedFiles ?s0 = []" by code_simp
  have n: "nextTimer ?s0 = 1" by code_simp
  have r0: "runs ?s0 = [\<lparr>req_include = Some [fileA], req_exclude = None, req_profile = None,
       req_continuous = True\<rparr>]" by code_simp
  note T = debounce_coalesces_window[OF h1 h2 h3 refl h5 h6 refl refl]
  have split: "sched_run fileOf watchAB newScheduler
           [FileChanged (FileChangeEvent uriA False), TimerFires 0,
            FileChanged (FileChangeEvent uriA False), FileChanged (FileChangeEvent uriB False),
            FileChanged (FileChangeEvent uriA True), TimerFires 3] =
        sched_step fileOf watchAB (sched_run fileOf watchAB ?s0 ?window) (TimerFires (nextTimer ?s0 + 2))"
    by (simp only: n) (simp add: sched_run_def eval_nat_numeral)
  have inc: "(case req_include watchAB of
                Some inc \<Rightarrow> filter (\<lambda>t. uri t = Some uriB) inc
              | None \<Rightarrow> (case fileOf uriB of None \<Rightarrow> [] | Some i \<Rightarrow> [i])) = [fileB]"
    by (simp add: watchAB_def fileA_def fileB_def fileItem_def uriB_def)
  have rest: "req_exclude watchAB = None" "req_profile watchAB = None"
    by (simp_all add: watchAB_def)
  from T have "runs (sched_step fileOf watchAB (sched_run fileOf watchAB ?s0 ?window)
                       (TimerFires (nextTimer ?s0 + 2))) =
      runs ?s0 @ [\<lparr>req_include = Some [fileB], req_exclude = None, req_profile = None,
                   req_continuous = True\<rparr>]"
    and "queuedFiles (sched_step fileOf watchAB (sched_run fileOf watchAB ?s0 ?window)
                       (TimerFires (nextTimer ?s0 + 2))) = []"
    unfolding inc rest by blast+
  then show ?thesis
    unfolding split[symmetric] r0 using h1 h2 h3 h5 h6 n by simp
qed


text \<open>
  Claim C4 says that a notification for a file outside the include list leaves the pending
  set and the running timer unchanged. The listener calls \<^verbatim>\<open>clearTimeout(debounced)\<close>
  before it looks at the include list and returns without arming a new timer: after a
  change of the included \<open>A\<close> and a change of the foreign \<open>B\<close>, the pending set still
  holds \<open>A\<close>, no timer is armed and no run is issued.
\<close>

theorem unrelated_change_cancels_timer:
  "notIncluded watchA uriB \<and>
   timers (sched_run fileOf watchA newScheduler
             [FileChanged (FileChangeEvent uriA False)]) = [0] \<and>
   timers (sched_run fileOf watchA newScheduler
             [FileChanged (FileChangeEvent uriA False),
              FileChanged (FileChangeEvent uriB False)]) = [] \<and>
   queuedFiles (sched_run fileOf watchA newScheduler
             [FileChanged (FileChangeEvent uriA False),
              FileChanged (FileChangeEvent uriB False)]) = [uriA] \<and>
   runs (sched_run fileOf watchA newScheduler
             [FileChanged (FileChangeEvent uriA False),
              FileChanged (FileChangeEvent uriB False), TimerFires 0]) = []"
  by code_simp

section \<open>The debug flow without the attach configuration\<close>

text \<open>
  Claim C6. When no launch configuration is named \<open>Attach to VS Code\<close>, \<open>debug\<close>
  throws the error \<open>Could not find launch config Attach to VS Code\<close> and has done nothing
  before: no wait server was opened and no process was spawned.
\<close>

theorem debug_fails_fast_without_attach_config:
  assumes "\<forall>c\<in>set configurations. cfg_name c \<noteq> ATTACH_CONFIG_NAME"
  shows "debug r configurations baseArgs filt =
           (Inl (Error ''Could not find launch config Attach to VS Code''), [])"
proof -
  have "find (\<lambda>c. cfg_name c = ATTACH_CONFIG_NAME) configurations = None"
    using assms by (simp add: find_None_iff)
  then show ?thesis by (simp add: debug_def ATTACH_CONFIG_NAME_def)
qed

theorem debug_fails_fast_without_attach_config_witness:
  "cfg_name launchConfig \<noteq> ATTACH_CONFIG_NAME \<and>
   debug exampleRunner [launchConfig] [] (Some [fooSuite]) =
     (Inl (Error ''Could not find launch config Attach to VS Code''), []) \<and>
   snd (debug exampleRunner [launchConfig, attachConfig] [] (Some [fooSuite])) =
     [ServerListen,
      SpawnProcess
        ''npm test -- --no-watch --browsers=ChromeHeadless --grep /^(Foo )/ --run src/app.spec.ts''
        ''/w'',
      RegisterTrackerFactory ''pwa-chrome'', RegisterExitHandler, RegisterSessionListener]"
proof -
  have h: "\<forall>c\<in>set [launchConfig]. cfg_name c \<noteq> ATTACH_CONFIG_NAME"
    by (simp add: launchConfig_def ATTACH_CONFIG_NAME_def)
  note T = debug_fails_fast_without_attach_config[OF h, of exampleRunner "[]" "Some [fooSuite]"]
  have other: "snd (debug exampleRunner [launchConfig, attachConfig] [] (Some [fooSuite])) =
     [ServerListen,
      SpawnProcess
        ''npm test -- --no-watch --browsers=ChromeHeadless --grep /^(Foo )/ --run src/app.spec.ts''
        ''/w'',
      RegisterTrackerFactory ''pwa-chrome'', RegisterExitHandler, RegisterSessionListener]"
    by code_simp
  have n: "cfg_name launchConfig \<noteq> ATTACH_CONFIG_NAME"
    by (simp add: launchConfig_def ATTACH_CONFIG_NAME_def)
  show ?thesis using n T other by blast
qed


section \<open>The wait server during a debug run\<close>

lemmas debug_handlers =
  debug_step_def onExit_def onDidStartDebugSession_def createDebugAdapterTracker_def
  onWillReceiveMessage_def onDidSendMessage_def onConnection_def server_ready_def
  server_dispose_def Let_def

lemma debug_run_Cons: "debug_run st (e # evs) = debug_run (debug_step st e) evs"
  by (simp add: debug_run_def)

lemma debug_run_append: "debug_run st (xs @ ys) = debug_run (debug_run st xs) ys"
  by (simp add: debug_run_def)

lemma ready_step: "ready (server st) \<Longrightarrow> ready (server (debug_step st e))"
  by (cases e) (auto simp: debug_handlers split: option.splits)

lemma ready_run: "ready (server st) \<Longrightarrow> ready (server (debug_run st evs))"
  by (induction evs arbitrary: st) (simp_all add: debug_run_def ready_step)

lemma flips_ready: "ready (server st) \<Longrightarrow> readyFlips st evs = 0"
  by (induction evs arbitrary: st) (simp_all add: ready_step)

lemma flips_exact:
  "readyFlips st evs = (if \<not> ready (server st) \<and> ready (server (debug_run st evs)) then 1 else 0)"
proof (induction evs arbitrary: st)
  case Nil
  then show ?case by (simp add: debug_run_def)
next
  case (Cons e evs)
  show ?case
  proof (cases "ready (server (debug_step st e))")
    case True
    then show ?thesis
      using flips_ready[OF True, of evs] ready_run[OF True, of evs] ready_step[of st e]
      by (auto simp: debug_run_Cons)
  next
    case False
    then have "\<not> ready (server st)" using ready_step by blast
    then show ?thesis using False Cons[of "debug_step st e"] by (simp add: debug_run_Cons)
  qed
qed

lemma ended_step:
  "\<not> ready (server (debug_step st e)) \<Longrightarrow> ended (server (debug_step st e)) = ended (server st)"
  by (cases e) (auto simp: debug_handlers split: option.splits if_splits)

lemma ended_run:
  "\<not> ready (server (debug_run st evs)) \<Longrightarrow> ended (server (debug_run st evs)) = ended (server st)"
proof (induction evs arbitrary: st)
  case Nil
  then show ?case by (simp add: debug_run_def)
next
  case (Cons e evs)
  then have nr: "\<not> ready (server (debug_step st e))"
    using ready_run[of "debug_step st e" evs] by (auto simp: debug_run_Cons)
  show ?case
    using Cons.IH[of "debug_step st e"] Cons.prems ended_step[OF nr] by (simp add: debug_run_Cons)
qed

lemma onReady_step:
  "s \<in> set (onReady (server st)) \<Longrightarrow> s \<in> set (onReady (server (debug_step st e)))"
  by (cases e) (auto simp: debug_handlers split: option.splits)

lemma onReady_run:
  "s \<in> set (onReady (server st)) \<Longrightarrow> s \<in> set (onReady (server (debug_run st evs)))"
  by (induction evs arbitrary: st) (simp_all add: debug_run_def onReady_step)

lemma flip_ends_queue:
  "\<not> ready (server st) \<Longrightarrow> ready (server (debug_step st e)) \<Longrightarrow>
   ended (server (debug_step st e)) = ended (server st) @ onReady (server st)"
  by (cases e) (auto simp: debug_handlers split: option.splits if_splits)

lemma connection_queued:
  "\<not> closed (server st) \<Longrightarrow> \<not> ready (server st) \<Longrightarrow>
   onReady (server (debug_step st (Connection s))) = onReady (server st) @ [s] \<and>
   ended (server (debug_step st (Connection s))) = ended (server st)"
  by (simp add: debug_handlers)

lemma connection_late:
  "\<not> closed (server st) \<Longrightarrow> ready (server st) \<Longrightarrow>
   ended (server (debug_step st (Connection s))) = ended (server st) @ [s]"
  by (simp add: debug_handlers)

lemma signal_step:
  "readySignal st e \<Longrightarrow> debug_step st e = st\<lparr>server := server_ready (server st)\<rparr>"
  by (cases e) (auto simp: readySignal_def debug_step_def onDidSendMessage_def)

lemma no_signal_step:
  "\<not> readySignal st e \<Longrightarrow> ready (server (debug_step st e)) = ready (server st)"
  by (cases e) (auto simp: readySignal_def debug_handlers split: option.splits)

lemma ready_iff_signals:
  "ready (server (debug_run st evs)) \<longleftrightarrow> ready (server st) \<or> 0 < readySignals st evs"
proof (induction evs arbitrary: st)
  case Nil
  then show ?case by (simp add: debug_run_def)
next
  case (Cons e evs)
  show ?case
  proof (cases "readySignal st e")
    case True
    then have "ready (server (debug_step st e))"
      by (simp add: signal_step server_ready_def)
    then show ?thesis
      using True Cons[of "debug_step st e"] by (simp add: debug_run_Cons)
  next
    case False
    then show ?thesis
      using no_signal_step[OF False] Cons[of "debug_step st e"] by (simp add: debug_run_Cons)
  qed
qed

text \<open>
  Claim C5 says that the wait server becomes ready exactly once per run. Nothing makes a
  run reach a call of \<^verbatim>\<open>server.ready()\<close>: when the process exits first, the server
  never leaves its initial state, and the connection it queued is never ended by it.
\<close>

theorem wait_server_never_ready_counterexample:
  "readyFlips startDebugRun [Connection 0, ProcessExit] = 0 \<and>
   ready (server (debug_run startDebugRun [Connection 0, ProcessExit])) = False \<and>
   ended (server (debug_run startDebugRun [Connection 0, ProcessExit])) = []"
  by code_simp

text \<open>
  Claim C5, amended. A tracker calls \<^verbatim>\<open>server.ready()\<close> for every response whose
  \<^verbatim>\<open>request_seq\<close> equals its \<open>initRequestId\<close>; no other event changes the flag. During
  a debug run the wait server changes from not ready to ready at most once: it does so at
  the first of these calls, stays ready under every later call and event, and never does
  in a run without such a call. A connection accepted while it is not ready is queued and
  not ended, and no socket is ended as long as it is not ready. The call that makes it
  ready ends every queued connection, and a connection accepted after that is ended on
  arrival.
\<close>

theorem wait_server_one_shot:
  "ready (server_ready g) \<and> ended (server_ready g) = ended g @ onReady g \<and>
   (msg_type m = ''response'' \<and> request_seq m = trackers st ! k \<longrightarrow>
      onDidSendMessage st k m = st\<lparr>server := server_ready (server st)\<rparr>) \<and>
   (k < length (trackers st) \<and> msg_type m = ''response'' \<and> request_seq m = trackers st ! k \<longrightarrow>
      readySignal st (DidSend k m) \<and>
      debug_step st (DidSend k m) = st\<lparr>server := server_ready (server st)\<rparr> \<and>
      ready (server (debug_step st (DidSend k m)))) \<and>
   (readySignal st e \<longrightarrow>
      ready (server (debug_step st e)) \<and>
      ended (server (debug_step st e)) = ended (server st) @ onReady (server st)) \<and>
   (\<not> readySignal st e \<longrightarrow> ready (server (debug_step st e)) = ready (server st)) \<and>
   readyFlips st evs \<le> 1 \<and>
   readyFlips st evs = (if \<not> ready (server st) \<and> 0 < readySignals st evs then 1 else 0) \<and>
   readyFlips st evs =
     (if \<not> ready (server st) \<and> ready (server (debug_run st evs)) then 1 else 0) \<and>
   (ready (server st) \<longrightarrow> ready (server (debug_run st evs))) \<and>
   (\<not> closed (server st) \<and> \<not> ready (server st) \<longrightarrow>
      onReady (server (debug_step st (Connection s))) = onReady (server st) @ [s] \<and>
      ended (server (debug_step st (Connection s))) = ended (server st)) \<and>
   (s \<in> set (onReady (server st)) \<longrightarrow> s \<in> set (onReady (server (debug_run st evs)))) \<and>
   (\<not> ready (server (debug_run st evs)) \<longrightarrow>
      ended (server (debug_run st evs)) = ended (server st)) \<and>
   (\<not> ready (server st) \<and> ready (server (debug_step st e)) \<longrightarrow>
      ended (server (debug_step st e)) = ended (server st) @ onReady (server st)) \<and>
   (\<not> closed (server st) \<and> ready (server st) \<longrightarrow>
      ended (server (debug_step st (Connection s))) = ended (server st) @ [s])"
proof -
  have call: "readySignal st (DidSend k m) \<and>
      debug_step st (DidSend k m) = st\<lparr>server := server_ready (server st)\<rparr> \<and>
      ready (server (debug_step st (DidSend k m)))"
    if "k < length (trackers st) \<and> msg_type m = ''response'' \<and> request_seq m = trackers st ! k"
  proof -
    have sig: "readySignal st (DidSend k m)" using that by (simp add: readySignal_def)
    then show ?thesis using signal_step[OF sig] by (simp add: server_ready_def)
  qed
  have sig: "ready (server (debug_step st e)) \<and>
      ended (server (debug_step st e)) = ended (server st) @ onReady (server st)"
    if "readySignal st e"
    using signal_step[OF that] by (simp add: server_ready_def)
  have le: "readyFlips st evs \<le> 1" by (simp add: flips_exact)
  have count: "readyFlips st evs =
      (if \<not> ready (server st) \<and> 0 < readySignals st evs then 1 else 0)"
    using flips_exact[of st evs] ready_iff_signals[of st evs] by auto
  have gate: "ready (server_ready g) \<and> ended (server_ready g) = ended g @ onReady g"
    by (simp add: server_ready_def)
  have handler: "msg_type m = ''response'' \<and> request_seq m = trackers st ! k \<longrightarrow>
      onDidSendMessage st k m = st\<lparr>server := server_ready (server st)\<rparr>"
    by (simp add: onDidSendMessage_def)
  show ?thesis
    using gate handler call sig no_signal_step[of st e] le count
      flips_exact[of st evs] ready_run[of st evs] connection_queued[of st s]
      onReady_run[of s st evs] ended_run[of st evs] flip_ends_queue[of st e]
      connection_late[of st s]
    by blast
qed

theorem wait_server_one_shot_witness:
  "readySignals startDebugRun
     [Connection 0, SessionStarted rootA, TrackerRequested childA, WillReceive 0 attachRequest,
      DidSend 0 attachResponse, Connection 1, DidSend 0 attachResponse] = 2 \<and>
   readyFlips startDebugRun
     [Connection 0, SessionStarted rootA, TrackerRequested childA, WillReceive 0 attachRequest,
      DidSend 0 attachResponse, Connection 1, DidSend 0 attachResponse] = 1 \<and>
   ended (server (debug_run startDebugRun
     [Connection 0, SessionStarted rootA, TrackerRequested childA,
      WillReceive 0 attachRequest])) = [] \<and>
   onReady (server (debug_run startDebugRun
     [Connection 0, SessionStarted rootA, TrackerRequested childA,
      WillReceive 0 attachRequest])) = [0] \<and>
   ready (server (debug_step (debug_run startDebugRun
     [Connection 0, SessionStarted rootA, TrackerRequested childA,
      WillReceive 0 attachRequest]) (DidSend 0 attachResponse))) \<and>
   ended (server (debug_step (debug_run startDebugRun
     [Connection 0, SessionStarted rootA, TrackerRequested childA,
      WillReceive 0 attachRequest]) (DidSend 0 attachResponse))) = [0] \<and>
   ended (server (debug_step (debug_run startDebugRun
     [Connection 0, SessionStarted rootA, TrackerRequested childA,
      WillReceive 0 attachRequest, DidSend 0 attachResponse]) (Connection 1))) = [0, 1] \<and>
   ready (server (debug_step (debug_run startDebugRun
     [SessionStarted rootA, TrackerRequested childA]) (DidSend 0 bareResponse)))"
proof -
  let ?pre = "[Connection 0, SessionStarted rootA, TrackerRequested childA,
               WillReceive 0 attachRequest]"
  let ?all = "[Connection 0, SessionStarted rootA, TrackerRequested childA,
               WillReceive 0 attachRequest, DidSend 0 attachResponse, Connection 1,
               DidSend 0 attachResponse]"
  let ?st = "debug_run startDebugRun ?pre"
  let ?st' = "debug_run startDebugRun (?pre @ [DidSend 0 attachResponse])"
  let ?bare = "debug_run startDebugRun [SessionStarted rootA, TrackerRequested childA]"
  have nr: "\<not> ready (server ?st)" by code_simp
  have cond: "0 < length (trackers ?st) \<and> msg_type attachResponse = ''response'' \<and>
              request_seq attachResponse = trackers ?st ! 0" by code_simp
  have q: "onReady (server ?st) = [0]" by code_simp
  have e0: "ended (server startDebugRun) = []" by code_simp
  have r': "ready (server ?st')" "\<not> closed (server ?st')" by code_simp+
  have e': "ended (server ?st') = [0]" by code_simp
  have start: "\<not> ready (server startDebugRun)" by code_simp
  have n: "readySignals startDebugRun ?all = 2" by code_simp
  have bare: "0 < length (trackers ?bare) \<and> msg_type bareResponse = ''response'' \<and>
              request_seq bareResponse = trackers ?bare ! 0" by code_simp
  from wait_server_one_shot[where st=startDebugRun and evs="?all"]
  have a0: "readyFlips startDebugRun ?all =
      (if \<not> ready (server startDebugRun) \<and> 0 < readySignals startDebugRun ?all then 1 else 0)"
    by blast
  have a1: "(if \<not> ready (server startDebugRun) \<and> 0 < (2::nat) then 1 else 0) = (1::nat)"
    using start by simp
  have a: "readyFlips startDebugRun ?all = 1"
    by (simp only: a0 n a1)
  from wait_server_one_shot[where st=startDebugRun and evs="?pre"] nr e0
  have b: "ended (server ?st) = []" by simp
  from wait_server_one_shot[where k=0 and m=attachResponse and st="?st"] cond
  have sig: "readySignal ?st (DidSend 0 attachResponse)" by blast
  from wait_server_one_shot[where st="?st" and e="DidSend 0 attachResponse"] sig b q
  have c: "ready (server (debug_step ?st (DidSend 0 attachResponse)))"
    "ended (server (debug_step ?st (DidSend 0 attachResponse))) = [0]" by simp_all
  from wait_server_one_shot[where st="?st'" and s=1] r' e'
  have d: "ended (server (debug_step ?st' (Connection 1))) = [0, 1]" by simp
  from wait_server_one_shot[where k=0 and m=bareResponse and st="?bare"] bare
  have f: "ready (server (debug_step ?bare (DidSend 0 bareResponse)))" by blast
  show ?thesis using n a b q c d f by simp
qed

section \<open>The root session of a debug run\<close>

lemma root_step: "rootSession st = Some r \<Longrightarrow> rootSession (debug_step st e) = Some r"
  by (cases e) (auto simp: debug_handlers split: option.splits)

lemma root_run: "rootSession st = Some r \<Longrightarrow> rootSession (debug_run st evs) = Some r"
  by (induction evs arbitrary: st) (simp_all add: debug_run_def root_step)

lemma exited_step:
  "exited st \<Longrightarrow> exited (debug_step st e) \<and> rootSession (debug_step st e) = rootSession st"
  by (cases e) (auto simp: debug_handlers split: option.splits)

lemma exited_run:
  "exited st \<Longrightarrow> exited (debug_run st evs) \<and> rootSession (debug_run st evs) = rootSession st"
proof (induction evs arbitrary: st)
  case Nil
  then show ?case by (simp add: debug_run_def)
next
  case (Cons e evs)
  then show ?case
    using exited_step[of st e] by (simp add: debug_run_Cons)
qed

lemma stops_inv_step: "stops_inv st \<Longrightarrow> stops_inv (debug_step st e)"
  by (cases e) (auto simp: stops_inv_def debug_handlers split: option.splits)

lemma stops_inv_run: "stops_inv st \<Longrightarrow> stops_inv (debug_run st evs)"
  by (induction evs arbitrary: st) (simp_all add: debug_run_def stops_inv_step)

lemma stops_inv_start: "stops_inv startDebugRun"
  by (simp add: stops_inv_def startDebugRun_def)

lemma waiting_step:
  "waiting st \<Longrightarrow> e \<noteq> ProcessExit \<Longrightarrow>
   (\<forall>x. e = SessionStarted x \<longrightarrow> sessionName x \<noteq> ATTACH_CONFIG_NAME) \<Longrightarrow>
   waiting (debug_step st e)"
  by (cases e) (auto simp: waiting_def debug_handlers split: option.splits)

lemma waiting_run:
  "waiting st \<Longrightarrow> ProcessExit \<notin> set pre \<Longrightarrow>
   (\<forall>x. SessionStarted x \<in> set pre \<longrightarrow> sessionName x \<noteq> ATTACH_CONFIG_NAME) \<Longrightarrow>
   waiting (debug_run st pre)"
proof (induction pre arbitrary: st)
  case Nil
  then show ?case by (simp add: debug_run_def)
next
  case (Cons e pre)
  have "waiting (debug_step st e)"
    using Cons.prems by (intro waiting_step) auto
  then show ?case using Cons by (simp add: debug_run_Cons)
qed

lemma waiting_records:
  "waiting st \<Longrightarrow> sessionName s = ATTACH_CONFIG_NAME \<Longrightarrow>
   rootSession (debug_step st (SessionStarted s)) = Some s"
  by (simp add: waiting_def debug_handlers)

text \<open>
  Claim C10 says that a matching session which starts after the process has exited makes
  the listener issue a stop request with an undefined argument. The exit handler disposes
  the listener, so the listener does not run for such a session; and when a root session
  was recorded before the exit, the listener's condition fails for every later session.
  In both runs below the only stop requests are those of the exit handler.
\<close>

theorem late_session_counterexample:
  "sessionName rootA = ATTACH_CONFIG_NAME \<and> sessionName rootB = ATTACH_CONFIG_NAME \<and>
   stopRequests (debug_run startDebugRun [ProcessExit, SessionStarted rootA]) = [] \<and>
   stopRequests (debug_run startDebugRun [SessionStarted rootA, ProcessExit, SessionStarted rootB]) =
     [Some rootA]"
  by code_simp


text \<open>
  Claim C10, amended. Within one debug run \<open>rootSession\<close> is assigned at most once: the
  first session named \<open>Attach to VS Code\<close> that starts before the process exits is
  recorded, no later event changes it, and after the exit no session is recorded. The
  stop requests of a run are exactly the exit handler's one request for the recorded root
  session, if there is one; no request with an undefined argument is issued. The
  listener's branch that calls \<^verbatim>\<open>stopDebugging(rootSession)\<close> with the undefined
  \<open>rootSession\<close> is taken only if the listener runs for a matching session while
  \<open>exited\<close> is set and no root session is recorded.
\<close>

theorem root_session_recorded_once:
  "(rootSession (debug_run startDebugRun evs) = Some r \<longrightarrow>
      rootSession (debug_run startDebugRun (evs @ later)) = Some r) \<and>
   (ProcessExit \<notin> set pre \<and>
    (\<forall>x. SessionStarted x \<in> set pre \<longrightarrow> sessionName x \<noteq> ATTACH_CONFIG_NAME) \<and>
    sessionName s = ATTACH_CONFIG_NAME \<longrightarrow>
      rootSession (debug_run startDebugRun (pre @ SessionStarted s # later)) = Some s) \<and>
   (exited (debug_run startDebugRun evs) \<longrightarrow>
      rootSession (debug_run startDebugRun (evs @ later)) =
        rootSession (debug_run startDebugRun evs)) \<and>
   stopRequests (debug_run startDebugRun evs) =
     (if exited (debug_run startDebugRun evs)
      then (case rootSession (debug_run startDebugRun evs) of
              None \<Rightarrow> [] | Some root \<Rightarrow> [Some root])
      else []) \<and>
   (sessionName s = ATTACH_CONFIG_NAME \<and> exited st \<and> rootSession st = None \<longrightarrow>
      onDidStartDebugSession st s = st\<lparr>stopRequests := stopRequests st @ [None]\<rparr>)"
proof -
  have a: "rootSession (debug_run startDebugRun evs) = Some r \<longrightarrow>
      rootSession (debug_run startDebugRun (evs @ later)) = Some r"
    by (simp add: debug_run_append root_run)
  have b: "rootSession (debug_run startDebugRun (pre @ SessionStarted s # later)) = Some s"
    if "ProcessExit \<notin> set pre"
      and "\<forall>x. SessionStarted x \<in> set pre \<longrightarrow> sessionName x \<noteq> ATTACH_CONFIG_NAME"
      and "sessionName s = ATTACH_CONFIG_NAME"
  proof -
    have "waiting startDebugRun" by (simp add: waiting_def startDebugRun_def)
    then have "waiting (debug_run startDebugRun pre)" using that(1,2) by (rule waiting_run)
    then have "rootSession (debug_step (debug_run startDebugRun pre) (SessionStarted s)) = Some s"
      using that(3) by (rule waiting_records)
    then show ?thesis by (simp add: debug_run_append debug_run_Cons root_run)
  qed
  have c: "exited (debug_run startDebugRun evs) \<longrightarrow>
      rootSession (debug_run startDebugRun (evs @ later)) =
        rootSession (debug_run startDebugRun evs)"
    by (simp add: debug_run_append exited_run)
  have d: "stopRequests (debug_run startDebugRun evs) =
     (if exited (debug_run startDebugRun evs)
      then (case rootSession (debug_run startDebugRun evs) of
              None \<Rightarrow> [] | Some root \<Rightarrow> [Some root])
      else [])"
    using stops_inv_run[OF stops_inv_start, of evs] by (simp add: stops_inv_def)
  have e: "sessionName s = ATTACH_CONFIG_NAME \<and> exited st \<and> rootSession st = None \<longrightarrow>
      onDidStartDebugSession st s = st\<lparr>stopRequests := stopRequests st @ [None]\<rparr>"
    by (simp add: onDidStartDebugSession_def)
  show ?thesis using a b c d e by blast
qed

theorem root_session_recorded_once_witness:
  "rootSession (debug_run startDebugRun [SessionStarted rootA]) = Some rootA \<and>
   rootSession (debug_run startDebugRun ([SessionStarted rootA] @ [SessionStarted rootB])) =
     Some rootA \<and>
   rootSession (debug_run startDebugRun
     ([Connection 0] @ SessionStarted rootA # [SessionStarted rootB, ProcessExit])) = Some rootA \<and>
   exited (debug_run startDebugRun [ProcessExit]) \<and>
   rootSession (debug_run startDebugRun ([ProcessExit] @ [SessionStarted rootA])) = None \<and>
   stopRequests (debug_run startDebugRun [SessionStarted rootA, SessionStarted rootB, ProcessExit]) =
     [Some rootA]"
proof -
  have n: "sessionName rootA = ATTACH_CONFIG_NAME"
    by (simp add: rootA_def ATTACH_CONFIG_NAME_def)
  have r1: "rootSession (debug_run startDebugRun [SessionStarted rootA]) = Some rootA"
    by code_simp
  from root_session_recorded_once[of "[SessionStarted rootA]" rootA "[SessionStarted rootB]"] r1
  have a: "rootSession (debug_run startDebugRun ([SessionStarted rootA] @ [SessionStarted rootB])) =
     Some rootA" by blast
  have pre: "ProcessExit \<notin> set [Connection 0]"
    "\<forall>x. SessionStarted x \<in> set [Connection 0] \<longrightarrow> sessionName x \<noteq> ATTACH_CONFIG_NAME"
    by simp_all
  from root_session_recorded_once[of _ _ "[SessionStarted rootB, ProcessExit]" "[Connection 0]" rootA]
    pre n
  have b: "rootSession (debug_run startDebugRun
     ([Connection 0] @ SessionStarted rootA # [SessionStarted rootB, ProcessExit])) = Some rootA"
    by blast
  have ex: "exited (debug_run startDebugRun [ProcessExit])" by code_simp
  have r0: "rootSession (debug_run startDebugRun [ProcessExit]) = None" by code_simp
  from root_session_recorded_once[of "[ProcessExit]" _ "[SessionStarted rootA]"] ex r0
  have c: "rootSession (debug_run startDebugRun ([ProcessExit] @ [SessionStarted rootA])) = None"
    by simp
  have ex2: "exited (debug_run startDebugRun [SessionStarted rootA, SessionStarted rootB, ProcessExit])"
    and r2: "rootSession (debug_run startDebugRun [SessionStarted rootA, SessionStarted rootB, ProcessExit]) = Some rootA"
    by code_simp+
  from root_session_recorded_once[of "[SessionStarted rootA, SessionStarted rootB, ProcessExit]"] ex2 r2
  have d: "stopRequests (debug_run startDebugRun [SessionStarted rootA, SessionStarted rootB, ProcessExit]) =
     [Some rootA]" by simp
  show ?thesis using r1 a b ex c d by blast
qed

end
